theory Spec2Isabelle
  imports Main "HOL-Library.Word"
begin

unbundle bit_operations_syntax

section \<open>GraymapImage.h: a single-header PGM/PBM reader\<close>

text \<open>
  A shallow embedding of \<^verbatim>\<open>src/GraymapImage.h\<close>. The class \<^verbatim>\<open>GraymapImage\<close> becomes a
  record, \<^verbatim>\<open>LoadImage\<close> a function from the old object to the returned flag and the new
  object. The C++ streams the loader reads from are modelled by the unread characters and
  the two state bits the code can set (\<^verbatim>\<open>failbit\<close>, \<^verbatim>\<open>eofbit\<close>); \<^verbatim>\<open>badbit\<close> is never set on
  an in-memory stream. Stream operations follow the C++ standard library in the classic
  "C" locale, as implemented by GNU libstdc++: a formatted extraction on a stream that is
  not good leaves its target unchanged; a number that does not parse stores 0, one that does
  not fit stores the largest value, both with \<^verbatim>\<open>failbit\<close>. The file is read as the bytes it
  holds (no newline translation). Allocation is assumed to succeed.
\<close>

subsection \<open>Machine types\<close>

type_synonym u8 = "8 word"
type_synonym u16 = "16 word"
type_synonym u32 = "32 word"

text \<open>
  What a call can do besides returning: write through an unchecked \<^verbatim>\<open>vector::operator[]\<close>
  outside the buffer (undefined behaviour in C++), or throw \<^verbatim>\<open>std::out_of_range\<close> from
  \<^verbatim>\<open>vector::at\<close>. A call that never returns is the value \<open>None\<close> of an option.
\<close>

datatype fault = undefined_behaviour | out_of_range

subsection \<open>Streams\<close>

record istream =
  rest :: string
  failbit :: bool
  eofbit :: bool

definition good :: "istream \<Rightarrow> bool" where
  "good s = (\<not> failbit s \<and> \<not> eofbit s)"

text \<open>\<^verbatim>\<open>isspace\<close> and the digits of the "C" locale.\<close>

definition isspace :: "char \<Rightarrow> bool" where
  "isspace c = (c = CHR '' '' \<or> c = CHR 0x09 \<or> c = CHR 0x0A \<or> c = CHR 0x0B
     \<or> c = CHR 0x0C \<or> c = CHR 0x0D)"

definition isdigit :: "char \<Rightarrow> bool" where
  "isdigit c = (48 \<le> (of_char c :: nat) \<and> (of_char c :: nat) \<le> 57)"

definition digit_value :: "char \<Rightarrow> nat" where
  "digit_value c = of_char c - 48"

definition dec_value :: "string \<Rightarrow> nat" where
  "dec_value ds = foldl (\<lambda>acc c. acc * 10 + digit_value c) 0 ds"

text \<open>
  \<^verbatim>\<open>istream::sentry\<close>: every input operation starts with it. On a stream that is not good
  it sets \<^verbatim>\<open>failbit\<close> and refuses; a formatted operation (\<open>noskipws = False\<close>) first skips
  white space and refuses, with \<^verbatim>\<open>eofbit\<close> and \<^verbatim>\<open>failbit\<close>, when nothing is left.
\<close>

definition sentry :: "bool \<Rightarrow> istream \<Rightarrow> istream \<times> bool" where
  "sentry noskipws s =
     (if good s then
        (if noskipws then (s, True)
         else (let r = dropWhile isspace (rest s) in
               if r = [] then (s\<lparr>rest := [], failbit := True, eofbit := True\<rparr>, False)
               else (s\<lparr>rest := r\<rparr>, True)))
      else (s\<lparr>failbit := True\<rparr>, False))"

text \<open>\<^verbatim>\<open>ifstream infile(filename)\<close>: a file that cannot be opened gives a failed stream.\<close>

definition ifstream :: "string option \<Rightarrow> istream" where
  "ifstream file =
     (case file of
        None \<Rightarrow> \<lparr>rest = [], failbit = True, eofbit = False\<rparr>
      | Some content \<Rightarrow> \<lparr>rest = content, failbit = False, eofbit = False\<rparr>)"

text \<open>
  \<^verbatim>\<open>getline(in, str)\<close>: on a failed stream \<open>str\<close> is untouched; otherwise it receives the
  characters up to the next newline, which is consumed; reaching the end sets \<^verbatim>\<open>eofbit\<close>
  and, when nothing at all was extracted, \<^verbatim>\<open>failbit\<close>.
\<close>

definition getline :: "istream \<Rightarrow> string \<Rightarrow> istream \<times> string" where
  "getline s str =
     (case sentry True s of
        (s1, False) \<Rightarrow> (s1, str)
      | (s1, True) \<Rightarrow>
          (let line = takeWhile (\<lambda>c. c \<noteq> CHR 0x0A) (rest s1) in
           case dropWhile (\<lambda>c. c \<noteq> CHR 0x0A) (rest s1) of
             [] \<Rightarrow> (s1\<lparr>rest := [], failbit := (line = []), eofbit := True\<rparr>, line)
           | _ # r \<Rightarrow> (s1\<lparr>rest := r\<rparr>, line)))"

text \<open>\<^verbatim>\<open>peek()\<close>: the next character, or \<open>None\<close> for \<^verbatim>\<open>EOF\<close>.\<close>

definition peek :: "istream \<Rightarrow> istream \<times> char option" where
  "peek s =
     (case sentry True s of
        (s1, False) \<Rightarrow> (s1, None)
      | (s1, True) \<Rightarrow>
          (case rest s1 of
             [] \<Rightarrow> (s1\<lparr>eofbit := True\<rparr>, None)
           | c # _ \<Rightarrow> (s1, Some c)))"

text \<open>
  \<^verbatim>\<open>stream << infile.rdbuf()\<close> into a fresh \<^verbatim>\<open>stringstream\<close>: everything the file buffer
  still holds; \<^verbatim>\<open>failbit\<close> when no character was inserted.
\<close>

definition insert_rdbuf :: "istream \<Rightarrow> istream" where
  "insert_rdbuf infile = \<lparr>rest = rest infile, failbit = (rest infile = []), eofbit = False\<rparr>"

text \<open>
  \<^verbatim>\<open>stream >> v\<close> for \<^verbatim>\<open>unsigned int\<close> and \<^verbatim>\<open>unsigned short\<close>: an optional sign, then
  decimal digits. The old value \<open>v\<close> survives when the sentry refuses.
\<close>

definition extract_unsigned :: "istream \<Rightarrow> 'a::len word \<Rightarrow> istream \<times> 'a word" where
  "extract_unsigned s v =
     (case sentry False s of
        (s1, False) \<Rightarrow> (s1, v)
      | (s1, True) \<Rightarrow>
          (let negative = (hd (rest s1) = CHR ''-'');
               r1 = (if negative \<or> hd (rest s1) = CHR ''+'' then tl (rest s1) else rest s1);
               ds = takeWhile isdigit r1;
               r2 = dropWhile isdigit r1;
               s2 = s1\<lparr>rest := r2, eofbit := (r2 = [])\<rparr>
           in if ds = [] then (s2\<lparr>failbit := True\<rparr>, 0)
              else if dec_value ds \<ge> 2 ^ LENGTH('a) then (s2\<lparr>failbit := True\<rparr>, - 1)
              else (s2, if negative then - of_nat (dec_value ds) else of_nat (dec_value ds))))"

text \<open>\<^verbatim>\<open>stream >> c\<close> for \<^verbatim>\<open>unsigned char\<close>: one character after white space, not a number.\<close>

definition extract_uchar :: "istream \<Rightarrow> u8 \<Rightarrow> istream \<times> u8" where
  "extract_uchar s v =
     (case sentry False s of
        (s1, False) \<Rightarrow> (s1, v)
      | (s1, True) \<Rightarrow>
          (case rest s1 of
             [] \<Rightarrow> (s1\<lparr>failbit := True, eofbit := True\<rparr>, v)
           | c # cs \<Rightarrow> (s1\<lparr>rest := cs\<rparr>, of_char c)))"

text \<open>\<^verbatim>\<open>stream.read((char *) &v, sizeof(unsigned char))\<close>: one raw byte.\<close>

definition read_byte :: "istream \<Rightarrow> u8 \<Rightarrow> istream \<times> u8" where
  "read_byte s v =
     (case sentry True s of
        (s1, False) \<Rightarrow> (s1, v)
      | (s1, True) \<Rightarrow>
          (case rest s1 of
             [] \<Rightarrow> (s1\<lparr>failbit := True, eofbit := True\<rparr>, v)
           | c # cs \<Rightarrow> (s1\<lparr>rest := cs\<rparr>, of_char c)))"

text \<open>
  The loop \<^verbatim>\<open>while(isspace(stream.peek())) stream.read(&dummy, 1)\<close>; \<^verbatim>\<open>isspace(EOF)\<close> is
  false.
\<close>

function skip_whitespace :: "istream \<Rightarrow> istream" where
  "skip_whitespace s =
     (case peek s of
        (s1, None) \<Rightarrow> s1
      | (s1, Some c) \<Rightarrow> if isspace c then skip_whitespace (fst (read_byte s1 0)) else s1)"
  by pat_completeness auto
termination
  by (relation "measure (\<lambda>s. length (rest s))")
     (auto simp: peek_def sentry_def read_byte_def good_def split: if_splits list.splits)

declare skip_whitespace.simps [simp del]

subsection \<open>The class\<close>

record GraymapImage =
  data :: "u8 list"
  width :: u32
  height :: u32
  max_value :: u16

text \<open>The constructor: \<^verbatim>\<open>_width(0), _height(0), _max_value(255)\<close> and an empty vector.\<close>

definition GraymapImage :: GraymapImage where
  "GraymapImage = \<lparr>data = [], width = 0, height = 0, max_value = 255\<rparr>"

definition IsInitialized :: "GraymapImage \<Rightarrow> bool" where
  "IsInitialized img = (width img \<noteq> 0 \<and> height img \<noteq> 0 \<and> length (data img) > 0)"

definition GetWidth :: "GraymapImage \<Rightarrow> u32" where
  "GetWidth img = width img"

definition GetHeight :: "GraymapImage \<Rightarrow> u32" where
  "GetHeight img = height img"

definition GetMaxValue :: "GraymapImage \<Rightarrow> u16" where
  "GetMaxValue img = max_value img"

text \<open>
  \<^verbatim>\<open>_data.at(y * _width + x)\<close>: the index is computed in \<^verbatim>\<open>unsigned int\<close> and checked
  against the size of the vector only.
\<close>

definition GetPixel :: "GraymapImage \<Rightarrow> u32 \<Rightarrow> u32 \<Rightarrow> fault + u8" where
  "GetPixel img x y =
     (let index = y * width img + x in
      if unat index < length (data img) then Inr (data img ! unat index)
      else Inl out_of_range)"

text \<open>\<^verbatim>\<open>vector::resize\<close>: keeps the old elements that fit, value-initialises new ones.\<close>

definition resize :: "u8 list \<Rightarrow> nat \<Rightarrow> u8 list" where
  "resize d n = take n d @ replicate (n - length d) 0"

subsection \<open>The pixel loops\<close>

text \<open>
  \<^verbatim>\<open>for (unsigned int i = first; i < n; ++i) body\<close>. Inside the loop \<open>i < n\<close>, so \<open>++i\<close>
  does not wrap and the loop ends.
\<close>

function for_loop :: "u32 \<Rightarrow> u32 \<Rightarrow> (u32 \<Rightarrow> 'a \<Rightarrow> fault + 'a) \<Rightarrow> 'a \<Rightarrow> fault + 'a" where
  "for_loop i n body st =
     (if i < n then
        (case body i st of
           Inl e \<Rightarrow> Inl e
         | Inr st' \<Rightarrow> for_loop (i + 1) n body st')
      else Inr st)"
  by pat_completeness auto
termination
proof (relation "measure (\<lambda>(i, n, body, st). unat n - unat i)")
  show "wf (measure (\<lambda>(i :: u32, n :: u32, body :: u32 \<Rightarrow> 'a \<Rightarrow> fault + 'a, st :: 'a). unat n - unat i))"
    by simp
next
  fix i n :: u32 and body :: "u32 \<Rightarrow> 'a \<Rightarrow> fault + 'a" and st x2 :: 'a
  assume "i < n"
  then have "unat (i + 1) = unat i + 1"
    by unat_arith
  with \<open>i < n\<close> show "((i + 1, n, body, x2), (i, n, body, st))
      \<in> measure (\<lambda>(i, n, body, st). unat n - unat i)"
    by (simp add: word_less_nat_alt)
qed

declare for_loop.simps [simp del]

text \<open>
  An element access \<^verbatim>\<open>_data[index]\<close> that a read stores into: \<open>rd\<close> is the read, given the
  element's old value. The subscript is unchecked, so an index outside the vector is a fault.
\<close>

definition read_element ::
  "(istream \<Rightarrow> u8 \<Rightarrow> istream \<times> u8) \<Rightarrow> u32 \<Rightarrow> istream \<times> u8 list \<Rightarrow> fault + istream \<times> u8 list" where
  "read_element rd index sd =
     (case sd of (s, d) \<Rightarrow>
        if unat index < length d then
          (case rd s (d ! unat index) of (s', v) \<Rightarrow> Inr (s', d[unat index := v]))
        else Inl undefined_behaviour)"

text \<open>P1: \<^verbatim>\<open>stream >> _data[i + j * _width]; _data[i + j * _width] *= 255;\<close>\<close>

definition read_P1 :: "istream \<Rightarrow> u8 \<Rightarrow> istream \<times> u8" where
  "read_P1 s v = (case extract_uchar s v of (s', v') \<Rightarrow> (s', v' * 255))"

text \<open>
  P4, the innermost loop over \<open>k\<close>: bit \<open>7 - k\<close> of \<open>temp\<close> goes to \<open>index = i + k + j * _width\<close>,
  and the loop is left at the first index outside the vector.
\<close>

function unpack_bits :: "u32 \<Rightarrow> u32 \<Rightarrow> u32 \<Rightarrow> u8 \<Rightarrow> nat \<Rightarrow> u8 list \<Rightarrow> u8 list" where
  "unpack_bits w j i temp k d =
     (if k < 8 then
        (let index = i + of_nat k + j * w in
         if unat index \<ge> length d then d
         else (let shift = 7 - k in
               unpack_bits w j i temp (k + 1)
                 (d[unat index := drop_bit shift (temp AND push_bit shift 1) * 255])))
      else d)"
  by pat_completeness auto
termination
  by (relation "measure (\<lambda>(w, j, i, temp, k, d). 8 - k)") auto

declare unpack_bits.simps [simp del]

definition read_P4 :: "u32 \<Rightarrow> u32 \<Rightarrow> u32 \<Rightarrow> istream \<times> u8 list \<Rightarrow> istream \<times> u8 list" where
  "read_P4 w j i sd =
     (case sd of (s, d) \<Rightarrow>
        (case read_byte s 0 of (s', temp) \<Rightarrow> (s', unpack_bits w j i temp 0 d)))"

text \<open>
  P4, \<^verbatim>\<open>for (unsigned int i = 0; i < _width; i+=8)\<close>: \<open>i + 8\<close> wraps around when
  \<open>_width > 2^32 - 8\<close>, and then the loop never ends.
\<close>

partial_function (option) columns_P4 ::
  "u32 \<Rightarrow> u32 \<Rightarrow> u32 \<Rightarrow> istream \<times> u8 list \<Rightarrow> (istream \<times> u8 list) option" where
  [code]: "columns_P4 w j i sd =
     (if i < w then columns_P4 w j (i + 8) (read_P4 w j i sd) else Some sd)"

function rows_P4 ::
  "u32 \<Rightarrow> u32 \<Rightarrow> u32 \<Rightarrow> istream \<times> u8 list \<Rightarrow> (istream \<times> u8 list) option" where
  "rows_P4 w h j sd =
     (if j < h then
        (case columns_P4 w j 0 sd of
           None \<Rightarrow> None
         | Some sd' \<Rightarrow> rows_P4 w h (j + 1) sd')
      else Some sd)"
  by pat_completeness auto
termination
proof (relation "measure (\<lambda>(w, h, j, sd). unat h - unat j)")
  show "wf (measure (\<lambda>(w :: u32, h :: u32, j :: u32, sd :: istream \<times> u8 list). unat h - unat j))"
    by simp
next
  fix w h j :: u32 and sd x2 :: "istream \<times> u8 list"
  assume "j < h"
  then have "unat (j + 1) = unat j + 1"
    by unat_arith
  with \<open>j < h\<close> show "((w, h, j + 1, x2), (w, h, j, sd))
      \<in> measure (\<lambda>(w, h, j, sd). unat h - unat j)"
    by (simp add: word_less_nat_alt)
qed

declare rows_P4.simps [simp del]

text \<open>The four branches of \<^verbatim>\<open>LoadImage\<close> that fill \<^verbatim>\<open>_data\<close> (lines 121 to 175).\<close>

definition decode_pixels ::
  "string \<Rightarrow> istream \<Rightarrow> GraymapImage \<Rightarrow> (fault + GraymapImage) option" where
  "decode_pixels formatBuffer stream img =
     (let w = width img; h = height img in
      map_option (map_sum id (\<lambda>sd. img\<lparr>data := snd sd\<rparr>))
        (if formatBuffer = ''P1'' then
           Some (for_loop 0 h (\<lambda>j. for_loop 0 w (\<lambda>i. read_element read_P1 (i + j * w)))
                   (stream, data img))
         else if formatBuffer = ''P2'' then
           Some (for_loop 0 h (\<lambda>j. for_loop 0 w (\<lambda>i. read_element extract_uchar (i + j * w)))
                   (stream, data img))
         else if formatBuffer = ''P4'' then
           map_option Inr (rows_P4 w h 0 (skip_whitespace stream, data img))
         else if formatBuffer = ''P5'' then
           Some (for_loop 0 h (\<lambda>j. for_loop 0 w (\<lambda>i. read_element read_byte (i + j * w)))
                   (skip_whitespace stream, data img))
         else Some (Inr (stream, data img))))"

subsection \<open>LoadImage\<close>

text \<open>
  Lines 88 to 93: open the file, read the first line. The files that exist are an
  association list from names to contents.
\<close>

definition read_format :: "(string \<times> string) list \<Rightarrow> string \<Rightarrow> istream \<times> string" where
  "read_format files filename = getline (ifstream (map_of files filename)) []"

text \<open>Lines 103 to 107: one optional comment line, then the rest of the file as a stream.\<close>

definition read_comment :: "istream \<Rightarrow> istream" where
  "read_comment infile =
     (case peek infile of (infile1, c) \<Rightarrow>
        insert_rdbuf (if c = Some CHR ''#'' then fst (getline infile1 []) else infile1))"

text \<open>Lines 108 and 109: the size, read into the members, and the buffer resized.\<close>

definition read_size :: "istream \<Rightarrow> GraymapImage \<Rightarrow> istream \<times> GraymapImage" where
  "read_size stream img =
     (case extract_unsigned stream (width img) of (stream1, w) \<Rightarrow>
      case extract_unsigned stream1 (height img) of (stream2, h) \<Rightarrow>
        (stream2, img\<lparr>data := resize (data img) (unat (w * h)), width := w, height := h\<rparr>))"

text \<open>Line 113: \<^verbatim>\<open>stream >> _max_value\<close>.\<close>

definition read_max_value :: "istream \<Rightarrow> GraymapImage \<Rightarrow> istream \<times> GraymapImage" where
  "read_max_value stream img =
     (case extract_unsigned stream (max_value img) of (stream1, m) \<Rightarrow>
        (stream1, img\<lparr>max_value := m\<rparr>))"

text \<open>
  Lines 111 and 112, the condition under which the maximum value is read:
  \<^verbatim>\<open>formatBuffer.compare("P2") != 0 || formatBuffer.compare("P5") != 0\<close>.
\<close>

definition reads_max_value :: "string \<Rightarrow> bool" where
  "reads_max_value formatBuffer = (formatBuffer \<noteq> ''P2'' \<or> formatBuffer \<noteq> ''P5'')"

text \<open>
  The result is \<open>None\<close> when the call does not return, a fault when it leaves defined
  behaviour, and otherwise the returned flag with the object as the call leaves it.
\<close>

definition LoadImage ::
  "(string \<times> string) list \<Rightarrow> string \<Rightarrow> GraymapImage \<Rightarrow> (fault + bool \<times> GraymapImage) option" where
  "LoadImage files filename img =
     (case read_format files filename of (infile, formatBuffer) \<Rightarrow>
        if formatBuffer \<noteq> ''P1'' \<and> formatBuffer \<noteq> ''P2'' \<and>
           formatBuffer \<noteq> ''P4'' \<and> formatBuffer \<noteq> ''P5''
        then Some (Inr (False, img))
        else
          (case read_size (read_comment infile) img of (stream, img1) \<Rightarrow>
             if reads_max_value formatBuffer then
               (case read_max_value stream img1 of (stream1, img2) \<Rightarrow>
                  if max_value img2 > 255 then Some (Inr (False, img2))
                  else map_option (map_sum id (Pair True))
                         (decode_pixels formatBuffer stream1 img2))
             else map_option (map_sum id (Pair True))
                    (decode_pixels formatBuffer stream img1)))"

subsection \<open>Notions used to state the properties\<close>

text \<open>
  What a stream still has to give: the bytes a raw \<^verbatim>\<open>read\<close> would deliver one after the
  other (none on a stream that is not good).
\<close>

definition unread :: "istream \<Rightarrow> u8 list" where
  "unread s = (if good s then map of_char (rest s) else [])"

text \<open>
  The pixel bytes of the binary formats: the bytes that follow the header and the white
  space after it, which the P4 and P5 branches skip before they read.
\<close>

definition pixel_bytes :: "istream \<Rightarrow> u8 list" where
  "pixel_bytes s = (if good s then map of_char (dropWhile isspace (rest s)) else [])"

text \<open>
  The values that successive \<^verbatim>\<open>stream >> _data[...]\<close> deliver in the ASCII formats: the
  characters that are not white space, one per read.
\<close>

definition pixel_chars :: "istream \<Rightarrow> u8 list" where
  "pixel_chars s = (if good s then map of_char (filter (\<lambda>c. \<not> isspace c) (rest s)) else [])"

text \<open>
  A read \<open>rd\<close> delivers the values \<open>units s\<close> one by one: it stores \<open>f u\<close> for the next
  value \<open>u\<close>, and \<open>g v\<close>, from the old content \<open>v\<close> of its target, when none is left.
\<close>

definition reads_from ::
  "(istream \<Rightarrow> u8 list) \<Rightarrow> (u8 \<Rightarrow> u8) \<Rightarrow> (u8 \<Rightarrow> u8) \<Rightarrow> (istream \<Rightarrow> u8 \<Rightarrow> istream \<times> u8) \<Rightarrow> bool" where
  "reads_from units f g rd =
     (\<forall>s v. units (fst (rd s v)) = tl (units s) \<and>
            snd (rd s v) = (case units s of [] \<Rightarrow> g v | u # _ \<Rightarrow> f u))"

text \<open>
  The pixel that the P4 branch leaves at index \<open>idx\<close> of a buffer of rows of \<open>W\<close> pixels,
  when \<open>U\<close> are the pixel bytes: each row takes \<open>(W + 7) div 8\<close> bytes, a byte that is
  missing counts as 0, and the most significant bit comes first.
\<close>

definition packed_pixel :: "u8 list \<Rightarrow> nat \<Rightarrow> nat \<Rightarrow> u8" where
  "packed_pixel U W idx =
     (let b = (idx div W) * ((W + 7) div 8) + (idx mod W) div 8;
          temp = (if b < length U then U ! b else 0)
      in if bit temp (7 - (idx mod W) mod 8) then 255 else 0)"

text \<open>The buffer \<open>d\<close> after its first \<open>k\<close> elements have been read into, from the values \<open>U\<close>.\<close>

definition filled :: "u8 list \<Rightarrow> (u8 \<Rightarrow> u8) \<Rightarrow> (u8 \<Rightarrow> u8) \<Rightarrow> u8 list \<Rightarrow> nat \<Rightarrow> u8 list" where
  "filled U f g d k =
     map (\<lambda>idx. if idx < k then (if idx < length U then f (U ! idx) else g (d ! idx)) else d ! idx)
       [0..<length d]"

subsection \<open>Words and row-major indices\<close>

lemma unat_inc: "(i :: 'a::len word) < n \<Longrightarrow> unat (i + 1) = Suc (unat i)"
  by unat_arith

lemma row_major_bound:
  assumes "(i::nat) < w" "j < h"
  shows "j * w + i < w * h"
proof -
  have "j * w + i < Suc j * w" using assms by simp
  also have "\<dots> \<le> h * w" using assms by (intro mult_le_mono1) simp
  finally show ?thesis by (simp add: mult.commute)
qed

lemma unat_row_major:
  fixes i j w h :: u32
  assumes "i < w" "j < h" "unat w * unat h < 2 ^ 32"
  shows "unat (i + j * w) = unat j * unat w + unat i"
proof -
  have b: "unat j * unat w + unat i < unat w * unat h"
    using assms by (intro row_major_bound) (simp_all add: word_less_nat_alt)
  then have "unat j * unat w < 2 ^ LENGTH(32)" using assms(3) by simp
  then have m: "unat (j * w) = unat j * unat w"
    by (simp only: unat_mult_lem)
  have "unat i + unat (j * w) < 2 ^ LENGTH(32)" using b assms(3) m by simp
  then have "unat (i + j * w) = unat i + unat (j * w)"
    by (simp only: unat_add_lem)
  with m show ?thesis by simp
qed

subsection \<open>What the reads deliver\<close>

lemma read_byte_reads: "reads_from unread id id read_byte"
  by (auto simp: reads_from_def unread_def read_byte_def sentry_def good_def
      split: list.splits)

lemma filter_dropWhile_not: "filter P (dropWhile (\<lambda>x. \<not> P x) xs) = filter P xs"
  by (induction xs) auto

lemma extract_uchar_reads: "reads_from pixel_chars id id extract_uchar"
proof -
  have *: "filter (\<lambda>c. \<not> isspace c) (dropWhile isspace xs) = filter (\<lambda>c. \<not> isspace c) xs" for xs
    using filter_dropWhile_not [of "\<lambda>c. \<not> isspace c" xs] by simp
  have **: "dropWhile isspace xs = c # cs \<Longrightarrow> \<not> isspace c" for xs c cs
    by (metis hd_dropWhile list.sel(1) list.simps(3))
  show ?thesis
    unfolding reads_from_def
  proof (intro allI)
    fix s v
    show "pixel_chars (fst (extract_uchar s v)) = tl (pixel_chars s) \<and>
       snd (extract_uchar s v) = (case pixel_chars s of [] \<Rightarrow> id v | u # x \<Rightarrow> id u)"
    proof (cases "good s")
      case False
      then show ?thesis
        by (auto simp: pixel_chars_def extract_uchar_def sentry_def good_def)
    next
      case True
      show ?thesis
      proof (cases "dropWhile isspace (rest s)")
        case Nil
        then have "filter (\<lambda>c. \<not> isspace c) (rest s) = []"
          using * [of "rest s"] by simp
        with True Nil show ?thesis
          by (simp add: pixel_chars_def extract_uchar_def sentry_def good_def)
      next
        case (Cons c cs)
        then have "filter (\<lambda>c. \<not> isspace c) (rest s) = c # filter (\<lambda>c. \<not> isspace c) cs"
          using * [of "rest s"] ** [OF Cons] by simp
        with True Cons show ?thesis
          by (simp add: pixel_chars_def extract_uchar_def sentry_def good_def)
      qed
    qed
  qed
qed

lemma read_P1_reads: "reads_from pixel_chars (\<lambda>u. u * 255) (\<lambda>v. v * 255) read_P1"
  unfolding reads_from_def
proof (intro allI)
  fix s v
  have e: "pixel_chars (fst (extract_uchar s v)) = tl (pixel_chars s)"
    "snd (extract_uchar s v) = (case pixel_chars s of [] \<Rightarrow> id v | u # _ \<Rightarrow> id u)"
    using extract_uchar_reads unfolding reads_from_def by blast+
  show "pixel_chars (fst (read_P1 s v)) = tl (pixel_chars s) \<and>
       snd (read_P1 s v) = (case pixel_chars s of [] \<Rightarrow> v * 255 | u # x \<Rightarrow> u * 255)"
    using e by (cases "extract_uchar s v"; cases "pixel_chars s") (simp_all add: read_P1_def)
qed

subsection \<open>The loops of P1, P2 and P5\<close>

lemma length_filled [simp]: "length (filled U f g d k) = length d"
  by (simp add: filled_def)

lemma filled_0 [simp]: "filled U f g d 0 = d"
  by (simp add: filled_def map_nth)

lemma nth_filled:
  "idx < length d \<Longrightarrow> filled U f g d k ! idx =
     (if idx < k then (if idx < length U then f (U ! idx) else g (d ! idx)) else d ! idx)"
  by (simp add: filled_def)

lemma read_element_step:
  assumes R: "reads_from units f g rd"
      and k: "k < length d" "unat index = k"
      and s: "units s = drop k U"
  shows "\<exists>s'. read_element rd index (s, filled U f g d k) = Inr (s', filled U f g d (Suc k)) \<and>
              units s' = drop (Suc k) U"
proof -
  obtain s' v where rd: "rd s (d ! k) = (s', v)" by (cases "rd s (d ! k)")
  from R rd have u: "units s' = tl (units s)"
    and v: "v = (case units s of [] \<Rightarrow> g (d ! k) | u # _ \<Rightarrow> f u)"
    unfolding reads_from_def by (metis fst_conv, metis snd_conv)
  have v': "v = (if k < length U then f (U ! k) else g (d ! k))"
    unfolding v s by (cases "k < length U") (simp_all add: Cons_nth_drop_Suc [symmetric])
  have "(filled U f g d k)[k := v] = filled U f g d (Suc k)"
    by (rule nth_equalityI) (auto simp: nth_filled nth_list_update v' less_Suc_eq)
  moreover have "units s' = drop (Suc k) U"
    unfolding u s by (simp add: drop_Suc tl_drop)
  ultimately show ?thesis
    using k rd by (auto simp: read_element_def nth_filled)
qed


lemma for_loop_columns:
  fixes w h j :: u32
  assumes R: "reads_from units f g rd"
      and j: "j < h" and n: "unat w * unat h < 2 ^ 32" and len: "length d = unat w * unat h"
  shows "i \<le> w \<Longrightarrow> units s = drop (unat j * unat w + unat i) U \<Longrightarrow>
     \<exists>s'. for_loop i w (\<lambda>i. read_element rd (i + j * w))
            (s, filled U f g d (unat j * unat w + unat i))
          = Inr (s', filled U f g d (unat j * unat w + unat w)) \<and>
          units s' = drop (unat j * unat w + unat w) U"
proof (induction "unat w - unat i" arbitrary: i s)
  case 0
  then have "i = w" by (simp add: word_le_nat_alt word_unat_eq_iff)
  with 0 show ?case by (simp add: for_loop.simps)
next
  case (Suc m)
  then have lt: "i < w" by (simp add: word_less_nat_alt)
  have idx: "unat (i + j * w) = unat j * unat w + unat i"
    using lt j n by (rule unat_row_major)
  have bound: "unat j * unat w + unat i < length d"
    unfolding len using lt j by (intro row_major_bound) (simp_all add: word_less_nat_alt)
  from read_element_step [OF R bound idx Suc.prems(2)]
  obtain s1 where step: "read_element rd (i + j * w) (s, filled U f g d (unat j * unat w + unat i))
      = Inr (s1, filled U f g d (Suc (unat j * unat w + unat i)))"
    and u1: "units s1 = drop (Suc (unat j * unat w + unat i)) U" by blast
  have i1: "unat (i + 1) = Suc (unat i)" using lt by (rule unat_inc)
  have "m = unat w - unat (i + 1)" using Suc.hyps(2) i1 by simp
  moreover have "i + 1 \<le> w" using lt by (rule inc_le)
  moreover have "units s1 = drop (unat j * unat w + unat (i + 1)) U" using u1 i1 by simp
  ultimately obtain s' where
    "for_loop (i + 1) w (\<lambda>i. read_element rd (i + j * w))
        (s1, filled U f g d (unat j * unat w + unat (i + 1)))
      = Inr (s', filled U f g d (unat j * unat w + unat w)) \<and>
     units s' = drop (unat j * unat w + unat w) U"
    using Suc.hyps(1) by blast
  then show ?case
    using lt step i1 by (subst for_loop.simps) simp
qed

lemma for_loop_rows:
  fixes w h :: u32
  assumes R: "reads_from units f g rd"
      and n: "unat w * unat h < 2 ^ 32" and len: "length d = unat w * unat h"
  shows "j \<le> h \<Longrightarrow> units s = drop (unat j * unat w) U \<Longrightarrow>
     \<exists>s'. for_loop j h (\<lambda>j. for_loop 0 w (\<lambda>i. read_element rd (i + j * w)))
            (s, filled U f g d (unat j * unat w))
          = Inr (s', filled U f g d (length d)) \<and> units s' = drop (length d) U"
proof (induction "unat h - unat j" arbitrary: j s)
  case 0
  then have "j = h" by (simp add: word_le_nat_alt word_unat_eq_iff)
  with 0 show ?case by (simp add: for_loop.simps len mult.commute)
next
  case (Suc m)
  then have lt: "j < h" by (simp add: word_less_nat_alt)
  from for_loop_columns [OF R lt n len, of 0 s U] Suc.prems(2)
  obtain s1 where row: "for_loop 0 w (\<lambda>i. read_element rd (i + j * w))
        (s, filled U f g d (unat j * unat w))
      = Inr (s1, filled U f g d (unat j * unat w + unat w))"
    and u1: "units s1 = drop (unat j * unat w + unat w) U" by auto
  have j1: "unat (j + 1) = Suc (unat j)" using lt by (rule unat_inc)
  have "m = unat h - unat (j + 1)" using Suc.hyps(2) j1 by simp
  moreover have "j + 1 \<le> h" using lt by (rule inc_le)
  moreover have "units s1 = drop (unat (j + 1) * unat w) U" using u1 j1 by (simp add: add.commute)
  ultimately obtain s' where
    "for_loop (j + 1) h (\<lambda>j. for_loop 0 w (\<lambda>i. read_element rd (i + j * w)))
        (s1, filled U f g d (unat (j + 1) * unat w))
      = Inr (s', filled U f g d (length d)) \<and> units s' = drop (length d) U"
    using Suc.hyps(1) by blast
  then show ?case
    using lt row j1 by (subst for_loop.simps) (simp add: add.commute)
qed


subsection \<open>The loops of P4\<close>

lemma unread_skip_whitespace: "unread (skip_whitespace s) = pixel_bytes s"
proof (induction s rule: skip_whitespace.induct)
  case (1 s)
  show ?case
  proof (cases "good s")
    case False
    then show ?thesis
      by (subst skip_whitespace.simps)
        (auto simp: peek_def sentry_def unread_def pixel_bytes_def good_def)
  next
    case True
    show ?thesis
    proof (cases "rest s")
      case Nil
      with True show ?thesis
        by (subst skip_whitespace.simps)
          (auto simp: peek_def sentry_def unread_def pixel_bytes_def good_def)
    next
      case (Cons c cs)
      with True have pk: "peek s = (s, Some c)"
        by (simp add: peek_def sentry_def)
      show ?thesis
      proof (cases "isspace c")
        case False
        with True Cons pk show ?thesis
          by (subst skip_whitespace.simps) (simp add: unread_def pixel_bytes_def)
      next
        case sp: True
        from True Cons have rb: "fst (read_byte s 0) = s\<lparr>rest := cs\<rparr>"
          by (simp add: read_byte_def sentry_def)
        have "unread (skip_whitespace (s\<lparr>rest := cs\<rparr>)) = pixel_bytes (s\<lparr>rest := cs\<rparr>)"
          using "1.IH" [OF pk [symmetric] refl sp] rb by simp
        moreover have "pixel_bytes (s\<lparr>rest := cs\<rparr>) = pixel_bytes s"
          using True Cons sp by (simp add: pixel_bytes_def good_def)
        ultimately show ?thesis
          using pk sp rb by (subst skip_whitespace.simps) simp
      qed
    qed
  qed
qed

lemma bit_pixel_value:
  "drop_bit n ((temp :: u8) AND push_bit n 1) * 255 = (if bit temp n then 255 else 0)"
proof -
  have "drop_bit n (temp AND push_bit n 1) = (of_bool (bit temp n) :: u8)"
  proof (rule bit_eqI)
    fix m
    show "bit (drop_bit n (temp AND push_bit n 1)) m = bit (of_bool (bit temp n) :: u8) m"
      by (cases "m = 0") (auto simp: bit_simps dest: bit_imp_le_length)
  qed
  then show ?thesis by simp
qed


lemma unpack_bits_done: "\<not> k < 8 \<Longrightarrow> unpack_bits w j i temp k d = d"
  by (subst unpack_bits.simps) simp

lemma unpack_bits_break:
  "k < 8 \<Longrightarrow> length d \<le> unat (i + word_of_nat k + j * w) \<Longrightarrow>
     unpack_bits w j i temp k d = d"
  by (subst unpack_bits.simps) simp

lemma unpack_bits_step:
  "k < 8 \<Longrightarrow> unat (i + word_of_nat k + j * w) = n \<Longrightarrow> n < length d \<Longrightarrow>
     unpack_bits w j i temp k d =
       unpack_bits w j i temp (Suc k) (d[n := drop_bit (7 - k) (temp AND push_bit (7 - k) 1) * 255])"
  by (subst unpack_bits.simps) (simp add: Let_def)

lemma unpack_bits_result:
  fixes w j i :: u32
  assumes base: "unat (i + j * w) = B" and len: "length d0 < 2 ^ 32"
  shows "k \<le> 8 \<Longrightarrow> B + k \<le> length d \<Longrightarrow> length d = length d0 \<Longrightarrow>
     length (unpack_bits w j i temp k d) = length d \<and>
     (\<forall>idx < length d. unpack_bits w j i temp k d ! idx =
        (if B + k \<le> idx \<and> idx < B + 8
         then (if bit temp (7 - (idx - B)) then 255 else 0) else d ! idx))"
proof (induction "8 - k" arbitrary: k d)
  case 0
  then have "\<not> k < 8" "k = 8" by simp_all
  then show ?case by (auto simp: unpack_bits_done)
next
  case (Suc m)
  then have k: "k < 8" by simp
  have "B + k < 2 ^ 32" using Suc.prems len by simp
  then have "unat (i + j * w) + unat (word_of_nat k :: u32) < 2 ^ LENGTH(32)"
    using base k by (simp add: unat_of_nat)
  then have "unat ((i + j * w) + word_of_nat k) = unat (i + j * w) + unat (word_of_nat k :: u32)"
    by (simp only: unat_add_lem)
  then have "unat ((i + j * w) + word_of_nat k) = B + k"
    using base k by (simp add: unat_of_nat)
  moreover have "i + word_of_nat k + j * w = (i + j * w) + word_of_nat k" by simp
  ultimately have index: "unat (i + word_of_nat k + j * w) = B + k"
    by (simp only:)
  show ?case
  proof (cases "length d \<le> B + k")
    case True
    then have "unpack_bits w j i temp k d = d"
      using k index by (simp add: unpack_bits_break)
    with True show ?thesis by simp
  next
    case False
    let ?v = "drop_bit (7 - k) (temp AND push_bit (7 - k) 1) * 255"
    let ?d1 = "d[B + k := ?v]"
    have "8 - Suc k = m" using Suc.hyps(2) by simp
    then have IH: "length (unpack_bits w j i temp (Suc k) ?d1) = length ?d1 \<and>
     (\<forall>idx < length ?d1. unpack_bits w j i temp (Suc k) ?d1 ! idx =
        (if B + Suc k \<le> idx \<and> idx < B + 8
         then (if bit temp (7 - (idx - B)) then 255 else 0) else ?d1 ! idx))"
      using k False Suc.prems(3) Suc.hyps(1) [of "Suc k" ?d1] by simp
    have unf: "unpack_bits w j i temp k d = unpack_bits w j i temp (Suc k) ?d1"
      using k index False by (intro unpack_bits_step) simp_all
    have v: "?v = (if bit temp (7 - k) then 255 else 0)"
      by (rule bit_pixel_value)
    show ?thesis
    proof (intro conjI allI impI)
      show "length (unpack_bits w j i temp k d) = length d"
        unfolding unf using IH by simp
    next
      fix idx assume idx: "idx < length d"
      show "unpack_bits w j i temp k d ! idx =
        (if B + k \<le> idx \<and> idx < B + 8
         then (if bit temp (7 - (idx - B)) then 255 else 0) else d ! idx)"
      proof (cases "idx = B + k")
        case True
        then have "unpack_bits w j i temp k d ! idx = ?d1 ! idx"
          unfolding unf using IH idx by simp
        also have "\<dots> = ?v" using True idx by simp
        also have "?v = (if bit temp (7 - k) then 255 else 0)" by (rule v)
        finally have "unpack_bits w j i temp k d ! idx = (if bit temp (7 - k) then 255 else 0)" .
        then show ?thesis using True k by simp
      next
        case ne: False
        then have "unpack_bits w j i temp k d ! idx =
          (if B + Suc k \<le> idx \<and> idx < B + 8
           then (if bit temp (7 - (idx - B)) then 255 else 0) else d ! idx)"
          unfolding unf using IH idx by simp
        moreover have "(B + Suc k \<le> idx) = (B + k \<le> idx)" using ne by auto
        ultimately show ?thesis by simp
      qed
    qed
  qed
qed

lemma read_byte_temp:
  assumes "unread s = drop r U"
  shows "\<exists>s1. read_byte s 0 = (s1, if r < length U then U ! r else 0) \<and>
              unread s1 = drop (Suc r) U"
proof -
  have e: "unread (fst (read_byte s 0)) = tl (unread s)"
    "snd (read_byte s 0) = (case unread s of [] \<Rightarrow> id 0 | u # _ \<Rightarrow> id u)"
    using read_byte_reads unfolding reads_from_def by blast+
  have "snd (read_byte s 0) = (if r < length U then U ! r else 0)"
    unfolding e assms by (cases "r < length U") (simp_all add: Cons_nth_drop_Suc [symmetric])
  moreover have "unread (fst (read_byte s 0)) = drop (Suc r) U"
    unfolding e assms by (simp add: drop_Suc tl_drop)
  ultimately show ?thesis by (cases "read_byte s 0") simp
qed


lemma packed_pixel_in_row:
  assumes "8 dvd c" "c + t < W" "t < 8"
  shows "packed_pixel U W (j * W + (c + t)) =
     (if bit (if j * ((W + 7) div 8) + c div 8 < length U
              then U ! (j * ((W + 7) div 8) + c div 8) else 0) (7 - t) then 255 else 0)"
proof -
  have "(j * W + (c + t)) div W = j" "(j * W + (c + t)) mod W = c + t"
    using assms by simp_all
  moreover have "(c + t) div 8 = c div 8" "(c + t) mod 8 = t"
    using assms by auto
  ultimately show ?thesis by (simp add: packed_pixel_def Let_def)
qed

lemma columns_P4_result:
  fixes w h j :: u32
  assumes j: "j < h" and n: "unat w * unat h < 2 ^ 32" and wb: "unat w + 8 \<le> 2 ^ 32"
  shows "8 dvd unat i \<Longrightarrow> unat i < unat w + 8 \<Longrightarrow> length d = unat w * unat h \<Longrightarrow>
     (\<forall>idx < unat j * unat w + min (unat i) (unat w). d ! idx = packed_pixel U (unat w) idx) \<Longrightarrow>
     unread s = drop (unat j * ((unat w + 7) div 8) + unat i div 8) U \<Longrightarrow>
     \<exists>s' d'. columns_P4 w j i (s, d) = Some (s', d') \<and> length d' = length d \<and>
        (\<forall>idx < Suc (unat j) * unat w. d' ! idx = packed_pixel U (unat w) idx) \<and>
        unread s' = drop (Suc (unat j) * ((unat w + 7) div 8)) U"
proof (induction "unat w + 8 - unat i" arbitrary: i s d rule: less_induct)
  case less
  show ?case
  proof (cases "i < w")
    case False
    then have ge: "unat w \<le> unat i" by (simp add: word_less_nat_alt)
    then have "unat i div 8 = (unat w + 7) div 8"
      using less.prems(1,2) by (elim dvdE) auto
    moreover have "min (unat i) (unat w) = unat w" using ge by simp
    ultimately show ?thesis
      using False less.prems by (subst columns_P4.simps) (simp add: add.commute)
  next
    case True
    let ?W = "unat w" and ?B = "unat j * unat w + unat i"
    let ?r = "unat j * ((unat w + 7) div 8) + unat i div 8"
    have lt: "unat i < ?W" using True by (simp add: word_less_nat_alt)
    have i8: "unat (i + 8) = unat i + 8"
    proof -
      have "unat i + unat (8 :: u32) < 2 ^ LENGTH(32)" using lt wb by simp
      then have "unat (i + 8) = unat i + unat (8 :: u32)" by (simp only: unat_add_lem)
      then show ?thesis by simp
    qed
    have base: "unat (i + j * w) = ?B" using True j n by (rule unat_row_major)
    have inb: "?B < length d"
      unfolding less.prems(3) using lt j by (intro row_major_bound) (simp_all add: word_less_nat_alt)
    have row_end: "unat j * ?W + ?W \<le> length d"
    proof -
      have "Suc (unat j) * ?W \<le> unat h * ?W"
        using j by (intro mult_le_mono1) (simp add: word_less_nat_alt Suc_leI)
      then show ?thesis by (simp add: less.prems(3) mult.commute)
    qed
    define temp where "temp = (if ?r < length U then U ! ?r else 0)"
    obtain s1 where rb: "read_byte s 0 = (s1, temp)"
      and u1: "unread s1 = drop (Suc ?r) U"
      unfolding temp_def using read_byte_temp [OF less.prems(5)] by blast
    let ?d1 = "unpack_bits w j i temp 0 d"
    have "length ?d1 = length d \<and>
       (\<forall>idx < length d. ?d1 ! idx =
          (if ?B + 0 \<le> idx \<and> idx < ?B + 8
           then (if bit temp (7 - (idx - ?B)) then 255 else 0) else d ! idx))"
      using inb n less.prems(3) by (intro unpack_bits_result [OF base, of d]) simp_all
    then have ub_len: "length ?d1 = length d"
      and ub: "\<And>idx. idx < length d \<Longrightarrow> ?d1 ! idx =
          (if ?B \<le> idx \<and> idx < ?B + 8
           then (if bit temp (7 - (idx - ?B)) then 255 else 0) else d ! idx)"
      by simp_all
    have inv1: "\<forall>idx < unat j * ?W + min (unat (i + 8)) ?W. ?d1 ! idx = packed_pixel U ?W idx"
    proof (intro allI impI)
      fix idx assume a: "idx < unat j * ?W + min (unat (i + 8)) ?W"
      then have idx: "idx < length d" using row_end by simp
      show "?d1 ! idx = packed_pixel U ?W idx"
      proof (cases "idx < ?B")
        case True
        then have "?d1 ! idx = d ! idx" using ub [OF idx] by simp
        also have "\<dots> = packed_pixel U ?W idx"
          using less.prems(4) True lt by simp
        finally show ?thesis .
      next
        case False
        define t where "t = idx - ?B"
        have t: "t < 8" "unat i + t < ?W" "idx = unat j * ?W + (unat i + t)"
          using False a i8 by (simp_all add: t_def)
        have hi: "?B \<le> idx" "idx < ?B + 8" using False a i8 by auto
        have "?d1 ! idx = (if bit temp (7 - t) then 255 else 0)"
          using ub [OF idx] hi by (simp add: t_def)
        also have "\<dots> = packed_pixel U ?W idx"
          unfolding t(3) temp_def using less.prems(1) t(1,2) by (simp add: packed_pixel_in_row)
        finally show ?thesis .
      qed
    qed
    have "(unat i + 8) div 8 = Suc (unat i div 8)" by arith
    then have u1': "unread s1 = drop (unat j * ((?W + 7) div 8) + unat (i + 8) div 8) U"
      using u1 i8 by simp
    have "\<exists>s' d'. columns_P4 w j (i + 8) (s1, ?d1) = Some (s', d') \<and> length d' = length ?d1 \<and>
        (\<forall>idx < Suc (unat j) * unat w. d' ! idx = packed_pixel U (unat w) idx) \<and>
        unread s' = drop (Suc (unat j) * ((unat w + 7) div 8)) U"
    proof (rule less.hyps)
      show "unat w + 8 - unat (i + 8) < unat w + 8 - unat i" using i8 lt by simp
      show "8 dvd unat (i + 8)" using i8 less.prems(1) by simp
      show "unat (i + 8) < unat w + 8" using i8 lt by simp
      show "length ?d1 = unat w * unat h" using ub_len less.prems(3) by simp
      show "\<forall>idx < unat j * ?W + min (unat (i + 8)) ?W. ?d1 ! idx = packed_pixel U ?W idx"
        by (rule inv1)
      show "unread s1 = drop (unat j * ((?W + 7) div 8) + unat (i + 8) div 8) U"
        by (rule u1')
    qed
    moreover have "columns_P4 w j i (s, d) = columns_P4 w j (i + 8) (s1, ?d1)"
      using True rb by (subst columns_P4.simps) (simp add: read_P4_def)
    ultimately show ?thesis using ub_len by auto
  qed
qed


lemma rows_P4_result:
  fixes w h :: u32
  assumes n: "unat w * unat h < 2 ^ 32" and wb: "unat w + 8 \<le> 2 ^ 32"
  shows "j \<le> h \<Longrightarrow> length d = unat w * unat h \<Longrightarrow>
     (\<forall>idx < unat j * unat w. d ! idx = packed_pixel U (unat w) idx) \<Longrightarrow>
     unread s = drop (unat j * ((unat w + 7) div 8)) U \<Longrightarrow>
     \<exists>s' d'. rows_P4 w h j (s, d) = Some (s', d') \<and> length d' = length d \<and>
        (\<forall>idx < length d. d' ! idx = packed_pixel U (unat w) idx)"
proof (induction "unat h - unat j" arbitrary: j s d)
  case 0
  then have "j = h" by (simp add: word_le_nat_alt word_unat_eq_iff)
  with 0 show ?case by (subst rows_P4.simps) (simp add: mult.commute)
next
  case (Suc m)
  then have lt: "j < h" by (simp add: word_less_nat_alt)
  have "\<exists>s' d'. columns_P4 w j 0 (s, d) = Some (s', d') \<and> length d' = length d \<and>
        (\<forall>idx < Suc (unat j) * unat w. d' ! idx = packed_pixel U (unat w) idx) \<and>
        unread s' = drop (Suc (unat j) * ((unat w + 7) div 8)) U"
    using Suc.prems by (intro columns_P4_result [OF lt n wb]) simp_all
  then obtain s1 d1 where row: "columns_P4 w j 0 (s, d) = Some (s1, d1)"
    and l1: "length d1 = length d"
    and inv1: "\<forall>idx < Suc (unat j) * unat w. d1 ! idx = packed_pixel U (unat w) idx"
    and u1: "unread s1 = drop (Suc (unat j) * ((unat w + 7) div 8)) U" by blast
  have j1: "unat (j + 1) = Suc (unat j)" using lt by (rule unat_inc)
  have "\<exists>s' d'. rows_P4 w h (j + 1) (s1, d1) = Some (s', d') \<and> length d' = length d1 \<and>
        (\<forall>idx < length d1. d' ! idx = packed_pixel U (unat w) idx)"
  proof (rule Suc.hyps(1))
    show "m = unat h - unat (j + 1)" using Suc.hyps(2) j1 by simp
    show "j + 1 \<le> h" using lt by (rule inc_le)
    show "length d1 = unat w * unat h" using l1 Suc.prems(2) by simp
    show "\<forall>idx < unat (j + 1) * unat w. d1 ! idx = packed_pixel U (unat w) idx"
      using inv1 j1 by simp
    show "unread s1 = drop (unat (j + 1) * ((unat w + 7) div 8)) U"
      using u1 j1 by simp
  qed
  moreover have "rows_P4 w h j (s, d) = rows_P4 w h (j + 1) (s1, d1)"
    using lt row by (subst rows_P4.simps) simp
  ultimately show ?case using l1 by auto
qed

subsection \<open>The header and the four branches\<close>

lemma length_resize [simp]: "length (resize d n) = n"
  by (simp add: resize_def)

lemma resize_Nil: "resize [] n = replicate n 0"
  by (simp add: resize_def)

lemma data_read_size:
  "read_size stream img = (stream1, img1) \<Longrightarrow>
     data img1 = resize (data img) (unat (width img1 * height img1))"
  by (auto simp: read_size_def split: prod.splits)

lemma data_read_max_value:
  "read_max_value stream img = (stream1, img1) \<Longrightarrow>
     data img1 = data img \<and> width img1 = width img \<and> height img1 = height img"
  by (auto simp: read_max_value_def split: prod.splits)

lemma header_length:
  assumes rs: "read_size stream img = (stream', img1)"
      and rm: "read_max_value stream' img1 = (stream1, img2)"
      and n: "unat (width img2) * unat (height img2) < 2 ^ 32"
  shows "length (data img2) = unat (width img2) * unat (height img2)"
proof -
  have "unat (width img2) * unat (height img2) < 2 ^ LENGTH(32)" using n by simp
  then have "unat (width img2 * height img2) = unat (width img2) * unat (height img2)"
    by (simp only: unat_mult_lem)
  then show ?thesis
    using data_read_size [OF rs] data_read_max_value [OF rm] by simp
qed

lemma LoadImage_accepted:
  assumes "read_format files filename = (infile, formatBuffer)"
      and "formatBuffer \<in> {''P1'', ''P2'', ''P4'', ''P5''}"
      and "read_size (read_comment infile) img = (stream, img1)"
      and "read_max_value stream img1 = (stream1, img2)"
  shows "LoadImage files filename img =
     (if 255 < max_value img2 then Some (Inr (False, img2))
      else map_option (map_sum id (Pair True)) (decode_pixels formatBuffer stream1 img2))"
proof -
  have "reads_max_value formatBuffer" by (auto simp: reads_max_value_def)
  with assms show ?thesis by (auto simp: LoadImage_def)
qed

lemma decode_for_loop:
  fixes img :: GraymapImage
  assumes R: "reads_from units f g rd"
      and n: "unat (width img) * unat (height img) < 2 ^ 32"
      and len: "length (data img) = unat (width img) * unat (height img)"
  shows "\<exists>s'. for_loop 0 (height img)
            (\<lambda>j. for_loop 0 (width img) (\<lambda>i. read_element rd (i + j * width img)))
            (s, data img)
          = Inr (s', filled (units s) f g (data img) (length (data img)))"
  using for_loop_rows [OF R n len, of 0 s "units s"] by auto

lemma decode_P5:
  assumes "unat (width img) * unat (height img) < 2 ^ 32"
      and "length (data img) = unat (width img) * unat (height img)"
  shows "decode_pixels ''P5'' stream img =
     Some (Inr (img\<lparr>data := filled (pixel_bytes stream) id id (data img) (length (data img))\<rparr>))"
  using decode_for_loop [OF read_byte_reads assms, of "skip_whitespace stream"]
  by (auto simp: decode_pixels_def Let_def unread_skip_whitespace)

lemma decode_P2:
  assumes "unat (width img) * unat (height img) < 2 ^ 32"
      and "length (data img) = unat (width img) * unat (height img)"
  shows "decode_pixels ''P2'' stream img =
     Some (Inr (img\<lparr>data := filled (pixel_chars stream) id id (data img) (length (data img))\<rparr>))"
  using decode_for_loop [OF extract_uchar_reads assms, of stream]
  by (auto simp: decode_pixels_def Let_def)

lemma decode_P1:
  assumes "unat (width img) * unat (height img) < 2 ^ 32"
      and "length (data img) = unat (width img) * unat (height img)"
  shows "decode_pixels ''P1'' stream img =
     Some (Inr (img\<lparr>data := filled (pixel_chars stream) (\<lambda>u. u * 255) (\<lambda>v. v * 255)
                                (data img) (length (data img))\<rparr>))"
  using decode_for_loop [OF read_P1_reads assms, of stream]
  by (auto simp: decode_pixels_def Let_def)

lemma decode_P4:
  assumes n: "unat (width img) * unat (height img) < 2 ^ 32"
      and len: "length (data img) = unat (width img) * unat (height img)"
      and wb: "unat (width img) + 8 \<le> 2 ^ 32"
  shows "\<exists>d'. decode_pixels ''P4'' stream img = Some (Inr (img\<lparr>data := d'\<rparr>)) \<and>
     length d' = length (data img) \<and>
     (\<forall>idx < length (data img). d' ! idx = packed_pixel (pixel_bytes stream) (unat (width img)) idx)"
proof -
  have "\<exists>s' d'. rows_P4 (width img) (height img) 0 (skip_whitespace stream, data img) = Some (s', d') \<and>
      length d' = length (data img) \<and>
      (\<forall>idx < length (data img). d' ! idx = packed_pixel (pixel_bytes stream) (unat (width img)) idx)"
    using len by (intro rows_P4_result [OF n wb]) (simp_all add: unread_skip_whitespace)
  then show ?thesis
    by (auto simp: decode_pixels_def Let_def)
qed

lemma unat_pixel_index:
  fixes x y w h :: u32
  assumes "x < w" "y < h" "unat w * unat h < 2 ^ 32"
  shows "unat (y * w + x) = unat y * unat w + unat x"
  using unat_row_major [OF assms] by (simp add: add.commute)

subsection \<open>The loops keep the size of the buffer\<close>

lemma for_loop_invariant:
  assumes step: "\<And>i st st'. P st \<Longrightarrow> body i st = Inr st' \<Longrightarrow> P st'"
  shows "for_loop i n body st = Inr st' \<Longrightarrow> P st \<Longrightarrow> P st'"
proof (induction "unat n - unat i" arbitrary: i st)
  case 0
  then have "\<not> i < n" by (simp add: word_less_nat_alt)
  with 0 show ?case by (simp add: for_loop.simps)
next
  case (Suc m)
  then have lt: "i < n" by (simp add: word_less_nat_alt)
  have "for_loop i n body st =
      (case body i st of Inl e \<Rightarrow> Inl e | Inr st1 \<Rightarrow> for_loop (i + 1) n body st1)"
    using lt by (subst for_loop.simps) simp
  with Suc.prems(1) obtain st1 where b: "body i st = Inr st1"
    and r: "for_loop (i + 1) n body st1 = Inr st'"
    by (cases "body i st") auto
  have "P st1" using Suc.prems(2) b by (rule step)
  moreover have "m = unat n - unat (i + 1)"
    using Suc.hyps(2) unat_inc [OF lt] by simp
  ultimately show ?case using r Suc.hyps(1) by blast
qed

lemma read_element_length:
  "read_element rd index sd = Inr sd' \<Longrightarrow> length (snd sd') = length (snd sd)"
  by (auto simp: read_element_def split: prod.splits if_splits)

lemma for_loop_read_length:
  assumes "for_loop j0 h (\<lambda>j. for_loop 0 w (\<lambda>i. read_element rd (i + j * w))) sd = Inr sd'"
  shows "length (snd sd') = length (snd sd)"
proof -
  define P where "P = (\<lambda>x :: istream \<times> u8 list. length (snd x) = length (snd sd))"
  have elem: "P st'" if "P st" "read_element rd index st = Inr st'" for index st st'
    using that read_element_length [OF that(2)] by (simp add: P_def)
  have inner: "P b" if "P a" "for_loop 0 w (\<lambda>i. read_element rd (i + j * w)) a = Inr b" for j a b
  proof (rule for_loop_invariant [of P "\<lambda>i. read_element rd (i + j * w)" 0 w a b])
    show "P st'" if "P st" "read_element rd (i + j * w) st = Inr st'" for i st st'
      using that by (rule elem)
  qed (use that in simp_all)
  have "P sd'"
  proof (rule for_loop_invariant
      [of P "\<lambda>j. for_loop 0 w (\<lambda>i. read_element rd (i + j * w))" j0 h sd sd'])
    show "P st'" if "P st" "for_loop 0 w (\<lambda>i. read_element rd (i + j * w)) st = Inr st'"
      for j st st'
      using that by (rule inner)
    show "for_loop j0 h (\<lambda>j. for_loop 0 w (\<lambda>i. read_element rd (i + j * w))) sd = Inr sd'"
      by (rule assms)
    show "P sd" by (simp add: P_def)
  qed
  then show ?thesis by (simp add: P_def)
qed

lemma length_unpack_bits: "length (unpack_bits w j i temp k d) = length d"
proof (induction w j i temp k d rule: unpack_bits.induct)
  case (1 w j i temp k d)
  show ?case
  proof (cases "k < 8 \<and> unat (i + word_of_nat k + j * w) < length d")
    case True
    then show ?thesis
      using "1.IH" [OF _ refl _ refl] by (subst unpack_bits.simps) (simp add: Let_def)
  next
    case False
    then show ?thesis by (subst unpack_bits.simps) (auto simp: Let_def)
  qed
qed

lemma length_read_P4: "length (snd (read_P4 w j i sd)) = length (snd sd)"
  by (simp add: read_P4_def length_unpack_bits split: prod.splits)

lemma columns_P4_length:
  assumes "columns_P4 w j i sd = Some sd'"
  shows "length (snd sd') = length (snd sd)"
proof (rule columns_P4.raw_induct
    [where P = "\<lambda>w j i sd sd'. length (snd sd') = length (snd sd)", OF _ assms])
  fix f and w j i :: u32 and sd sd' :: "istream \<times> u8 list"
  assume IH: "\<And>j i sd b y. f j i sd b = Some y \<Longrightarrow> length (snd y) = length (snd b)"
    and eq: "(if i < w then f w j (i + 8) (read_P4 w j i sd) else Some sd) = Some sd'"
  show "length (snd sd') = length (snd sd)"
  proof (cases "i < w")
    case True
    with eq have "f w j (i + 8) (read_P4 w j i sd) = Some sd'" by simp
    from IH [OF this] show ?thesis by (simp add: length_read_P4)
  next
    case False
    with eq show ?thesis by simp
  qed
qed

lemma rows_P4_length:
  "rows_P4 w h j sd = Some sd' \<Longrightarrow> length (snd sd') = length (snd sd)"
proof (induction w h j sd rule: rows_P4.induct)
  case (1 w h j sd)
  show ?case
  proof (cases "j < h")
    case False
    with "1.prems" show ?thesis by (simp add: rows_P4.simps)
  next
    case True
    have "rows_P4 w h j sd =
        (case columns_P4 w j 0 sd of None \<Rightarrow> None | Some sd1 \<Rightarrow> rows_P4 w h (j + 1) sd1)"
      using True by (subst rows_P4.simps) simp
    with "1.prems" obtain sd1 where c: "columns_P4 w j 0 sd = Some sd1"
      and r: "rows_P4 w h (j + 1) sd1 = Some sd'"
      by (cases "columns_P4 w j 0 sd") auto
    from "1.IH" [OF True c r] columns_P4_length [OF c] show ?thesis by simp
  qed
qed

lemma map_sum_id_Inr:
  "map_sum id f x = Inr y \<Longrightarrow> \<exists>z. x = Inr z \<and> y = f z"
  by (cases x) auto

lemma decode_pixels_length:
  assumes "decode_pixels formatBuffer stream img = Some (Inr img')"
  shows "length (data img') = length (data img) \<and> width img' = width img \<and>
         height img' = height img \<and> max_value img' = max_value img"
proof -
  let ?w = "width img" and ?h = "height img"
  let ?loops = "\<lambda>rd s. for_loop 0 ?h (\<lambda>j. for_loop 0 ?w (\<lambda>i. read_element rd (i + j * ?w)))
     (s, data img)"
  have loops: "length (data img') = length (data img) \<and> width img' = width img \<and>
         height img' = height img \<and> max_value img' = max_value img"
    if "map_sum id (\<lambda>sd. img\<lparr>data := snd sd\<rparr>) (?loops rd s) = Inr img'" for rd s
  proof -
    from map_sum_id_Inr [OF that] obtain sd where sd: "?loops rd s = Inr sd"
      "img' = img\<lparr>data := snd sd\<rparr>" by blast
    from for_loop_read_length [OF sd(1)] sd(2) show ?thesis by simp
  qed
  consider "formatBuffer = ''P1''" | "formatBuffer = ''P2''" | "formatBuffer = ''P4''"
    | "formatBuffer = ''P5''"
    | "formatBuffer \<notin> {''P1'', ''P2'', ''P4'', ''P5''}" by auto
  then show ?thesis
  proof cases
    case 1
    with assms show ?thesis by (intro loops [of read_P1 stream]) (simp add: decode_pixels_def Let_def)
  next
    case 2
    with assms show ?thesis
      by (intro loops [of extract_uchar stream]) (simp add: decode_pixels_def Let_def)
  next
    case 3
    with assms obtain sd where sd:
      "rows_P4 ?w ?h 0 (skip_whitespace stream, data img) = Some sd"
      "img' = img\<lparr>data := snd sd\<rparr>"
      by (auto simp: decode_pixels_def Let_def)
    from rows_P4_length [OF sd(1)] sd(2) show ?thesis by simp
  next
    case 4
    with assms show ?thesis
      by (intro loops [of read_byte "skip_whitespace stream"]) (simp add: decode_pixels_def Let_def)
  next
    case 5
    with assms show ?thesis by (auto simp: decode_pixels_def Let_def)
  qed
qed

lemma LoadImage_True_length:
  assumes "LoadImage files filename img0 = Some (Inr (True, img))"
  shows "length (data img) = unat (width img * height img)"
proof -
  obtain infile formatBuffer where rf: "read_format files filename = (infile, formatBuffer)"
    by (cases "read_format files filename")
  obtain stream img1 where rs: "read_size (read_comment infile) img0 = (stream, img1)"
    by (cases "read_size (read_comment infile) img0")
  obtain stream1 img2 where rm: "read_max_value stream img1 = (stream1, img2)"
    by (cases "read_max_value stream img1")
  have acc: "formatBuffer \<in> {''P1'', ''P2'', ''P4'', ''P5''}"
    using assms rf by (auto simp: LoadImage_def split: if_splits)
  have "map_option (map_sum id (Pair True)) (decode_pixels formatBuffer stream1 img2)
      = Some (Inr (True, img))"
    using assms LoadImage_accepted [OF rf acc rs rm] by (auto split: if_splits)
  then obtain z where "decode_pixels formatBuffer stream1 img2 = Some z"
    "map_sum id (Pair True) z = Inr (True, img)" by auto
  then have "decode_pixels formatBuffer stream1 img2 = Some (Inr img)"
    by (cases z) auto
  from decode_pixels_length [OF this] data_read_size [OF rs] data_read_max_value [OF rm]
  show ?thesis by simp
qed

lemma width_multiple_of_8:
  fixes W :: u32
  assumes "8 dvd unat W"
  shows "unat W + 8 \<le> 2 ^ 32" "(unat W + 7) div 8 = unat W div 8"
proof -
  have "unat W < 2 ^ LENGTH(32)" by (rule unsigned_less)
  then have "unat W < 4294967296" by simp
  with assms have "unat W + 8 \<le> 4294967296" by presburger
  then show "unat W + 8 \<le> 2 ^ 32" by simp
  from assms show "(unat W + 7) div 8 = unat W div 8" by presburger
qed

lemma packed_pixel_missing:
  "length U \<le> (idx div W) * ((W + 7) div 8) + (idx mod W) div 8 \<Longrightarrow> packed_pixel U W idx = 0"
  by (simp add: packed_pixel_def Let_def)

subsection \<open>A file with a well-formed header\<close>

lemma isdigit_not_isspace: "isdigit c \<Longrightarrow> \<not> isspace c"
  by (auto simp: isdigit_def isspace_def)

lemma isdigit_not_sign: "isdigit c \<Longrightarrow> c \<noteq> CHR ''-'' \<and> c \<noteq> CHR ''+'' \<and> c \<noteq> CHR ''#''"
  by (auto simp: isdigit_def)

lemma takeWhile_token:
  assumes "\<forall>c\<in>set ds. P c" "r = [] \<or> \<not> P (hd r)"
  shows "takeWhile P (ds @ r) = ds" "dropWhile P (ds @ r) = r"
  using assms by (cases r; simp)+

lemma extract_unsigned_token:
  assumes "good s" and "rest s = ws @ ds @ r"
      and "\<forall>c\<in>set ws. isspace c" and "ds \<noteq> []" and "\<forall>c\<in>set ds. isdigit c"
      and "r = [] \<or> \<not> isdigit (hd r)"
      and "dec_value ds < 2 ^ LENGTH('a)"
  shows "extract_unsigned s (v :: 'a::len word)
           = (s\<lparr>rest := r, eofbit := (r = [])\<rparr>, of_nat (dec_value ds))"
proof -
  obtain c cs where ds: "ds = c # cs" using assms(4) by (cases ds) auto
  have c: "isdigit c" using assms(5) ds by simp
  have "dropWhile isspace (ds @ r) = ds @ r"
    using isdigit_not_isspace [OF c] ds by simp
  then have dw: "dropWhile isspace (rest s) = ds @ r"
    using assms(2,3) by simp
  have sen: "sentry False s = (s\<lparr>rest := ds @ r\<rparr>, True)"
    using assms(1) dw ds by (simp add: sentry_def Let_def)
  have hd: "hd (ds @ r) \<noteq> CHR ''-''" "hd (ds @ r) \<noteq> CHR ''+''"
    using isdigit_not_sign [OF c] ds by simp_all
  have tk: "takeWhile isdigit (ds @ r) = ds" "dropWhile isdigit (ds @ r) = r"
    using takeWhile_token [OF assms(5,6)] by simp_all
  show ?thesis
    using hd tk assms(4,7) by (simp add: extract_unsigned_def sen Let_def not_le [symmetric])
qed

lemma read_format_of_file:
  assumes "map_of files filename = Some (formatBuffer @ [CHR 0x0A] @ body)"
      and "formatBuffer \<in> {''P1'', ''P2'', ''P4'', ''P5''}"
  shows "read_format files filename
           = (\<lparr>rest = body, failbit = False, eofbit = False\<rparr>, formatBuffer)"
proof -
  have nl: "\<forall>c\<in>set formatBuffer. c \<noteq> CHR 0x0A" using assms(2) by auto
  have "takeWhile (\<lambda>c. c \<noteq> CHR 0x0A) (formatBuffer @ CHR 0x0A # body) = formatBuffer"
    "dropWhile (\<lambda>c. c \<noteq> CHR 0x0A) (formatBuffer @ CHR 0x0A # body) = CHR 0x0A # body"
    using takeWhile_token [of formatBuffer "\<lambda>c. c \<noteq> CHR 0x0A" "CHR 0x0A # body"] nl by simp_all
  then show ?thesis
    using assms(1)
    by (simp add: read_format_def ifstream_def getline_def sentry_def good_def Let_def)
qed

lemma read_comment_of_file:
  assumes "comment = [] \<or> (\<exists>line. comment = CHR ''#'' # line @ [CHR 0x0A] \<and> CHR 0x0A \<notin> set line)"
      and "body \<noteq> []" and "isdigit (hd body)"
  shows "read_comment \<lparr>rest = comment @ body, failbit = False, eofbit = False\<rparr>
           = \<lparr>rest = body, failbit = False, eofbit = False\<rparr>"
proof (cases "comment = []")
  case True
  obtain c cs where b: "body = c # cs" using assms(2) by (cases body) auto
  then have "c \<noteq> CHR ''#''" using assms(3) isdigit_not_sign [of c] by simp
  with True b show ?thesis
    by (simp add: read_comment_def peek_def sentry_def good_def insert_rdbuf_def)
next
  case False
  then obtain line where c: "comment = CHR ''#'' # line @ [CHR 0x0A]" "CHR 0x0A \<notin> set line"
    using assms(1) by auto
  have nl: "\<forall>c\<in>set (CHR ''#'' # line). c \<noteq> CHR 0x0A" using c(2) by auto
  have "takeWhile (\<lambda>c. c \<noteq> CHR 0x0A) ((CHR ''#'' # line) @ CHR 0x0A # body) = CHR ''#'' # line"
    "dropWhile (\<lambda>c. c \<noteq> CHR 0x0A) ((CHR ''#'' # line) @ CHR 0x0A # body) = CHR 0x0A # body"
    using takeWhile_token [of "CHR ''#'' # line" "\<lambda>c. c \<noteq> CHR 0x0A" "CHR 0x0A # body"] nl
    by simp_all
  then have "takeWhile (\<lambda>c. c \<noteq> CHR 0x0A) (line @ CHR 0x0A # body) = line"
    "dropWhile (\<lambda>c. c \<noteq> CHR 0x0A) (line @ CHR 0x0A # body) = CHR 0x0A # body"
    by simp_all
  then show ?thesis
    using c(1) assms(2)
    by (simp add: read_comment_def peek_def sentry_def good_def insert_rdbuf_def getline_def Let_def)
qed

lemma header_of_file:
  assumes content: "map_of files filename =
        Some (formatBuffer @ [CHR 0x0A] @ comment @ wd @ sp1 @ ht @ sp2 @ md @ tail)"
      and fmt: "formatBuffer \<in> {''P1'', ''P2'', ''P4'', ''P5''}"
      and cmt: "comment = [] \<or>
        (\<exists>line. comment = CHR ''#'' # line @ [CHR 0x0A] \<and> CHR 0x0A \<notin> set line)"
      and wd: "wd \<noteq> []" "\<forall>c\<in>set wd. isdigit c" "dec_value wd < 2 ^ 32"
      and sp1: "sp1 \<noteq> []" "\<forall>c\<in>set sp1. isspace c"
      and ht: "ht \<noteq> []" "\<forall>c\<in>set ht. isdigit c" "dec_value ht < 2 ^ 32"
      and sp2: "sp2 \<noteq> []" "\<forall>c\<in>set sp2. isspace c"
      and md: "md \<noteq> []" "\<forall>c\<in>set md. isdigit c" "dec_value md < 2 ^ 16"
      and tail: "tail = [] \<or> \<not> isdigit (hd tail)"
  shows "\<exists>infile stream img1.
           read_format files filename = (infile, formatBuffer) \<and>
           read_size (read_comment infile) img = (stream, img1) \<and>
           read_max_value stream img1 =
             (\<lparr>rest = tail, failbit = False, eofbit = (tail = [])\<rparr>,
              img\<lparr>data := resize (data img)
                       (unat (of_nat (dec_value wd) * of_nat (dec_value ht) :: u32)),
                  width := of_nat (dec_value wd), height := of_nat (dec_value ht),
                  max_value := of_nat (dec_value md)\<rparr>)"
proof -
  let ?body = "wd @ sp1 @ ht @ sp2 @ md @ tail"
  let ?s0 = "\<lparr>rest = ?body, failbit = False, eofbit = False\<rparr>"
  let ?s1 = "\<lparr>rest = sp1 @ ht @ sp2 @ md @ tail, failbit = False, eofbit = False\<rparr>"
  let ?s2 = "\<lparr>rest = sp2 @ md @ tail, failbit = False, eofbit = False\<rparr>"
  have rf: "read_format files filename
      = (\<lparr>rest = comment @ ?body, failbit = False, eofbit = False\<rparr>, formatBuffer)"
    using read_format_of_file [OF _ fmt, of files filename "comment @ ?body"] content by simp
  have rc: "read_comment \<lparr>rest = comment @ ?body, failbit = False, eofbit = False\<rparr> = ?s0"
    using wd(1,2) by (intro read_comment_of_file [OF cmt]) (cases wd; simp)+
  have sp1': "\<not> isdigit (hd (sp1 @ ht @ sp2 @ md @ tail))"
    using sp1 isdigit_not_isspace [of "hd sp1"] by (cases sp1) auto
  have sp2': "\<not> isdigit (hd (sp2 @ md @ tail))"
    using sp2 isdigit_not_isspace [of "hd sp2"] by (cases sp2) auto
  have e1: "extract_unsigned ?s0 (width img) = (?s1, (of_nat (dec_value wd) :: u32))"
    using extract_unsigned_token [of ?s0 "[]" wd "sp1 @ ht @ sp2 @ md @ tail" "width img"]
      wd sp1 sp1' by (simp add: good_def)
  have e2: "extract_unsigned ?s1 (height img) = (?s2, (of_nat (dec_value ht) :: u32))"
    using extract_unsigned_token [of ?s1 sp1 ht "sp2 @ md @ tail" "height img"]
      ht sp1 sp2 sp2' by (simp add: good_def)
  have e3: "extract_unsigned ?s2 v
      = (\<lparr>rest = tail, failbit = False, eofbit = (tail = [])\<rparr>, (of_nat (dec_value md) :: u16))"
    for v
    using extract_unsigned_token [of ?s2 sp2 md tail v] md sp2 tail by (simp add: good_def)
  show ?thesis
    by (simp add: rf rc read_size_def read_max_value_def e1 e2 e3)
qed

lemma pixel_bytes_tail:
  "pixel_bytes \<lparr>rest = tail, failbit = False, eofbit = (tail = [])\<rparr>
     = map of_char (dropWhile isspace tail)"
  by (cases tail) (simp_all add: pixel_bytes_def good_def)

lemma pixel_chars_tail:
  "pixel_chars \<lparr>rest = tail, failbit = False, eofbit = (tail = [])\<rparr>
     = map of_char (filter (\<lambda>c. \<not> isspace c) tail)"
  by (cases tail) (simp_all add: pixel_chars_def good_def)

lemma unat_of_nat_u32: "n < 2 ^ 32 \<Longrightarrow> unat (of_nat n :: u32) = n"
  by (simp add: unat_of_nat)

lemma nth_resize_new: "length d \<le> idx \<Longrightarrow> idx < n \<Longrightarrow> resize d n ! idx = 0"
  by (simp add: resize_def nth_append)

subsection \<open>What the branches make of the stream they are given\<close>

text \<open>
  The P5 branch stores the bytes that follow the white space, one per pixel.
\<close>

lemma P5_pixels_from_stream:
  assumes "read_format files filename = (infile, ''P5'')"
      and "read_size (read_comment infile) img = (stream, img1)"
      and "read_max_value stream img1 = (stream1, img2)"
      and "max_value img2 \<le> 255"
      and "width img2 = W" and "height img2 = H"
      and "unat W * unat H < 2 ^ 32"
      and "unat W * unat H \<le> length (pixel_bytes stream1)"
  shows "\<exists>img'. LoadImage files filename img = Some (Inr (True, img')) \<and>
           GetWidth img' = W \<and> GetHeight img' = H \<and> GetMaxValue img' = max_value img2 \<and>
           length (data img') = unat W * unat H \<and>
           (\<forall>x y. x < W \<and> y < H \<longrightarrow>
              GetPixel img' x y = Inr (pixel_bytes stream1 ! (unat y * unat W + unat x)))"
proof -
  let ?U = "pixel_bytes stream1"
  let ?d = "filled ?U id id (data img2) (length (data img2))"
  have n: "unat (width img2) * unat (height img2) < 2 ^ 32" using assms(5-7) by simp
  have len: "length (data img2) = unat W * unat H"
    using header_length [OF assms(2,3) n] assms(5,6) by simp
  have dec: "decode_pixels ''P5'' stream1 img2 = Some (Inr (img2\<lparr>data := ?d\<rparr>))"
    using n len assms(5,6) by (intro decode_P5) simp_all
  have load: "LoadImage files filename img = Some (Inr (True, img2\<lparr>data := ?d\<rparr>))"
    using LoadImage_accepted [OF assms(1) _ assms(2,3)] assms(4) dec by simp
  have pix: "GetPixel (img2\<lparr>data := ?d\<rparr>) x y = Inr (?U ! (unat y * unat W + unat x))"
    if "x < W" "y < H" for x y
  proof -
    have idx: "unat (y * W + x) = unat y * unat W + unat x"
      using that assms(7) by (rule unat_pixel_index)
    have b: "unat y * unat W + unat x < unat W * unat H"
      using that by (intro row_major_bound) (simp_all add: word_less_nat_alt)
    then have "?d ! (unat y * unat W + unat x) = ?U ! (unat y * unat W + unat x)"
      using len assms(8) by (simp add: nth_filled)
    then show ?thesis
      using idx b len assms(5) by (simp add: GetPixel_def)
  qed
  show ?thesis
    using load pix len assms(5,6)
    by (intro exI [of _ "img2\<lparr>data := ?d\<rparr>"]) (simp add: GetWidth_def GetHeight_def GetMaxValue_def)
qed

text \<open>
  The P4 branch, for a width that is a multiple of 8, takes bit \<open>7 - k\<close> of byte \<open>j\<close> of a
  row for pixel \<open>(j * 8 + k, row)\<close>, of the bytes that it reads.
\<close>

lemma P4_bits_from_stream:
  assumes "read_format files filename = (infile, ''P4'')"
      and "read_size (read_comment infile) img = (stream, img1)"
      and "read_max_value stream img1 = (stream1, img2)"
      and "max_value img2 \<le> 255"
      and "width img2 = W" and "height img2 = H"
      and "unat W * unat H < 2 ^ 32"
      and "8 dvd unat W"
  shows "\<exists>img'. LoadImage files filename img = Some (Inr (True, img')) \<and>
           GetWidth img' = W \<and> GetHeight img' = H \<and>
           length (data img') = unat W * unat H \<and>
           (\<forall>row j k. row < unat H \<and> j < unat W div 8 \<and> k < 8 \<and>
                row * (unat W div 8) + j < length (pixel_bytes stream1) \<longrightarrow>
              data img' ! (row * unat W + (j * 8 + k)) =
                (if bit (pixel_bytes stream1 ! (row * (unat W div 8) + j)) (7 - k)
                 then 255 else 0)) \<and>
           (\<forall>x y. x < W \<and> y < H \<and>
                unat y * (unat W div 8) + unat x div 8 < length (pixel_bytes stream1) \<longrightarrow>
              GetPixel img' x y =
                Inr (if bit (pixel_bytes stream1 ! (unat y * (unat W div 8) + unat x div 8))
                          (7 - unat x mod 8)
                     then 255 else 0))"
proof -
  let ?U = "pixel_bytes stream1"
  have n: "unat (width img2) * unat (height img2) < 2 ^ 32" using assms(5-7) by simp
  have len: "length (data img2) = unat (width img2) * unat (height img2)"
    by (rule header_length [OF assms(2,3) n])
  have wb: "unat (width img2) + 8 \<le> 2 ^ 32"
    using width_multiple_of_8(1) [OF assms(8)] assms(5) by simp
  have nb: "(unat W + 7) div 8 = unat W div 8"
    by (rule width_multiple_of_8(2) [OF assms(8)])
  from decode_P4 [OF n len wb, of stream1]
  obtain d' where dec: "decode_pixels ''P4'' stream1 img2 = Some (Inr (img2\<lparr>data := d'\<rparr>))"
    and l': "length d' = unat W * unat H"
    and px: "\<And>idx. idx < unat W * unat H \<Longrightarrow> d' ! idx = packed_pixel ?U (unat W) idx"
    using len assms(5,6) by auto
  have load: "LoadImage files filename img = Some (Inr (True, img2\<lparr>data := d'\<rparr>))"
    using LoadImage_accepted [OF assms(1) _ assms(2,3)] assms(4) dec by simp
  have bits: "d' ! (row * unat W + (j * 8 + k)) =
      (if bit (?U ! (row * (unat W div 8) + j)) (7 - k) then 255 else 0)"
    if "row < unat H" "j < unat W div 8" "k < 8" "row * (unat W div 8) + j < length ?U"
    for row j k
  proof -
    have in_row: "j * 8 + k < unat W" using that(2,3) assms(8) by (elim dvdE) auto
    then have "row * unat W + (j * 8 + k) < unat W * unat H"
      using that(1) by (intro row_major_bound)
    then have "d' ! (row * unat W + (j * 8 + k)) = packed_pixel ?U (unat W) (row * unat W + (j * 8 + k))"
      by (rule px)
    also have "\<dots> = (if bit (if row * ((unat W + 7) div 8) + (j * 8) div 8 < length ?U
              then ?U ! (row * ((unat W + 7) div 8) + (j * 8) div 8) else 0) (7 - k)
           then 255 else 0)"
      using in_row that(3) by (intro packed_pixel_in_row) simp_all
    finally show ?thesis using that(4) by (simp add: nb)
  qed
  have get: "GetPixel (img2\<lparr>data := d'\<rparr>) x y =
      Inr (if bit (?U ! (unat y * (unat W div 8) + unat x div 8)) (7 - unat x mod 8)
           then 255 else 0)"
    if "x < W" "y < H" "unat y * (unat W div 8) + unat x div 8 < length ?U" for x y
  proof -
    have idx: "unat (y * W + x) = unat y * unat W + unat x"
      using that(1,2) assms(7) by (rule unat_pixel_index)
    have b: "unat y * unat W + unat x < unat W * unat H"
      using that(1,2) by (intro row_major_bound) (simp_all add: word_less_nat_alt)
    have "unat x div 8 < unat W div 8"
      using that(1) assms(8) by (elim dvdE) (auto simp: word_less_nat_alt)
    then have "d' ! (unat y * unat W + (unat x div 8 * 8 + unat x mod 8)) =
      (if bit (?U ! (unat y * (unat W div 8) + unat x div 8)) (7 - unat x mod 8) then 255 else 0)"
      using that(2,3) by (intro bits) (simp_all add: word_less_nat_alt)
    then show ?thesis
      using idx b l' assms(5) by (simp add: GetPixel_def)
  qed
  show ?thesis
    using load l' bits get assms(5,6)
    by (intro exI [of _ "img2\<lparr>data := d'\<rparr>"]) (simp add: GetWidth_def GetHeight_def)
qed

text \<open>
  What every branch leaves in the entries for which the stream has no value.
\<close>

lemma truncated_data_from_stream:
  assumes "read_format files filename = (infile, formatBuffer)"
      and "formatBuffer \<in> {''P1'', ''P2'', ''P4'', ''P5''}"
      and "read_size (read_comment infile) img = (stream, img1)"
      and "read_max_value stream img1 = (stream1, img2)"
      and "max_value img2 \<le> 255"
      and "width img2 = W" and "height img2 = H"
      and "unat W * unat H < 2 ^ 32"
      and "formatBuffer = ''P4'' \<longrightarrow> unat W + 8 \<le> 2 ^ 32"
  shows "\<exists>img'. LoadImage files filename img = Some (Inr (True, img')) \<and>
           length (data img') = unat W * unat H \<and>
           (\<forall>idx < unat W * unat H.
              (formatBuffer = ''P5'' \<longrightarrow>
                 data img' ! idx =
                   (if idx < length (pixel_bytes stream1) then pixel_bytes stream1 ! idx
                    else resize (data img) (unat W * unat H) ! idx)) \<and>
              (formatBuffer = ''P2'' \<longrightarrow>
                 data img' ! idx =
                   (if idx < length (pixel_chars stream1) then pixel_chars stream1 ! idx
                    else resize (data img) (unat W * unat H) ! idx)) \<and>
              (formatBuffer = ''P1'' \<longrightarrow>
                 data img' ! idx =
                   (if idx < length (pixel_chars stream1) then pixel_chars stream1 ! idx * 255
                    else resize (data img) (unat W * unat H) ! idx * 255)) \<and>
              (formatBuffer = ''P4'' \<and>
               length (pixel_bytes stream1)
                 \<le> (idx div unat W) * ((unat W + 7) div 8) + (idx mod unat W) div 8 \<longrightarrow>
                 data img' ! idx = 0))"
proof -
  let ?N = "unat W * unat H"
  have n: "unat (width img2) * unat (height img2) < 2 ^ 32" using assms(6-8) by simp
  have len: "length (data img2) = unat (width img2) * unat (height img2)"
    by (rule header_length [OF assms(3,4) n])
  have lenN: "length (data img2) = ?N" using len assms(6,7) by simp
  have old: "data img2 = resize (data img) ?N"
    using data_read_size [OF assms(3)] data_read_max_value [OF assms(4)] lenN
    by (metis length_resize)
  have load: "LoadImage files filename img =
      map_option (map_sum id (Pair True)) (decode_pixels formatBuffer stream1 img2)"
  proof -
    have "\<not> 255 < max_value img2" using assms(5) by simp
    then show ?thesis using LoadImage_accepted [OF assms(1-4)] by simp
  qed
  consider "formatBuffer = ''P1''" | "formatBuffer = ''P2''" | "formatBuffer = ''P4''"
    | "formatBuffer = ''P5''" using assms(2) by auto
  then show ?thesis
  proof cases
    case 1
    let ?d = "filled (pixel_chars stream1) (\<lambda>u. u * 255) (\<lambda>v. v * 255) (data img2) ?N"
    have "decode_pixels ''P1'' stream1 img2 = Some (Inr (img2\<lparr>data := ?d\<rparr>))"
      using decode_P1 [OF n len, of stream1] lenN by simp
    with load 1 have "LoadImage files filename img = Some (Inr (True, img2\<lparr>data := ?d\<rparr>))"
      by simp
    moreover have "?d ! idx =
        (if idx < length (pixel_chars stream1) then pixel_chars stream1 ! idx * 255
         else resize (data img) ?N ! idx * 255)"
      if "idx < ?N" for idx
      using that lenN by (simp add: nth_filled) (simp add: old)
    ultimately show ?thesis
      using 1 lenN by (intro exI [of _ "img2\<lparr>data := ?d\<rparr>"]) simp
  next
    case 2
    let ?d = "filled (pixel_chars stream1) id id (data img2) ?N"
    have "decode_pixels ''P2'' stream1 img2 = Some (Inr (img2\<lparr>data := ?d\<rparr>))"
      using decode_P2 [OF n len, of stream1] lenN by simp
    with load 2 have "LoadImage files filename img = Some (Inr (True, img2\<lparr>data := ?d\<rparr>))"
      by simp
    moreover have "?d ! idx =
        (if idx < length (pixel_chars stream1) then pixel_chars stream1 ! idx
         else resize (data img) ?N ! idx)"
      if "idx < ?N" for idx
      using that lenN by (simp add: nth_filled) (simp add: old)
    ultimately show ?thesis
      using 2 lenN by (intro exI [of _ "img2\<lparr>data := ?d\<rparr>"]) simp
  next
    case 3
    then have wb: "unat (width img2) + 8 \<le> 2 ^ 32" using assms(9,6) by simp
    from decode_P4 [OF n len wb, of stream1]
    obtain d' where dec: "decode_pixels ''P4'' stream1 img2 = Some (Inr (img2\<lparr>data := d'\<rparr>))"
      and l': "length d' = ?N"
      and px: "\<And>idx. idx < ?N \<Longrightarrow> d' ! idx = packed_pixel (pixel_bytes stream1) (unat W) idx"
      using lenN assms(6) by auto
    from load 3 dec
    have "LoadImage files filename img = Some (Inr (True, img2\<lparr>data := d'\<rparr>))"
      by simp
    then show ?thesis
      using 3 l' px by (intro exI [of _ "img2\<lparr>data := d'\<rparr>"]) (simp add: packed_pixel_missing)
  next
    case 4
    let ?d = "filled (pixel_bytes stream1) id id (data img2) ?N"
    have "decode_pixels ''P5'' stream1 img2 = Some (Inr (img2\<lparr>data := ?d\<rparr>))"
      using decode_P5 [OF n len, of stream1] lenN by simp
    with load 4 have "LoadImage files filename img = Some (Inr (True, img2\<lparr>data := ?d\<rparr>))"
      by simp
    moreover have "?d ! idx =
        (if idx < length (pixel_bytes stream1) then pixel_bytes stream1 ! idx
         else resize (data img) ?N ! idx)"
      if "idx < ?N" for idx
      using that lenN by (simp add: nth_filled) (simp add: old)
    ultimately show ?thesis
      using 4 lenN by (intro exI [of _ "img2\<lparr>data := ?d\<rparr>"]) simp
  qed
qed

subsection \<open>Evaluating the loader on a concrete file\<close>

lemmas stream_defs = ifstream_def getline_def peek_def insert_rdbuf_def extract_unsigned_def
  extract_uchar_def read_byte_def sentry_def good_def isspace_def isdigit_def dec_value_def
  digit_value_def

lemmas load_defs = LoadImage_def read_format_def read_comment_def read_size_def
  read_max_value_def reads_max_value_def decode_pixels_def resize_def read_element_def
  read_P1_def read_P4_def GraymapImage_def

lemma replicate_numeral_u8: "replicate (numeral k) (x::u8) = x # replicate (pred_numeral k) x"
  by (simp add: numeral_eq_Suc)

lemma snd_read_format:
  "snd (read_format files filename) =
     (case map_of files filename of
        None \<Rightarrow> []
      | Some content \<Rightarrow> takeWhile (\<lambda>c. c \<noteq> CHR 0x0A) content)"
  by (simp add: read_format_def ifstream_def getline_def sentry_def good_def Let_def
      split: option.splits list.splits)

lemma map_sum_Pair_True: "map_sum id (Pair True) z \<noteq> Inr (False, x)"
  by (cases z) auto

subsection \<open>Files that are rejected at the first line\<close>

text \<open>
  C10. When the file cannot be opened, or its first line (empty for an empty file) is not
  exactly one of \<^verbatim>\<open>P1\<close>, \<^verbatim>\<open>P2\<close>, \<^verbatim>\<open>P4\<close>, \<^verbatim>\<open>P5\<close>, \<^verbatim>\<open>LoadImage\<close> returns false and the
  object is unchanged. A default-constructed object is then still not initialised, with
  width 0, height 0 and maximum value 255.
\<close>

theorem LoadImage_unreadable_unchanged:
  assumes "map_of files filename = None \<or>
           (\<exists>content. map_of files filename = Some content \<and>
              takeWhile (\<lambda>c. c \<noteq> CHR 0x0A) content \<notin> {''P1'', ''P2'', ''P4'', ''P5''})"
  shows "LoadImage files filename img = Some (Inr (False, img)) \<and>
         LoadImage files filename GraymapImage = Some (Inr (False, GraymapImage)) \<and>
         \<not> IsInitialized GraymapImage \<and> GetWidth GraymapImage = 0 \<and>
         GetHeight GraymapImage = 0 \<and> GetMaxValue GraymapImage = 255"
proof -
  have bad: "snd (read_format files filename) \<notin> {''P1'', ''P2'', ''P4'', ''P5''}"
    using assms by (auto simp: snd_read_format)
  have "LoadImage files filename i = Some (Inr (False, i))" for i
    using bad by (cases "read_format files filename") (auto simp: LoadImage_def)
  moreover have "\<not> IsInitialized GraymapImage \<and> GetWidth GraymapImage = 0 \<and>
      GetHeight GraymapImage = 0 \<and> GetMaxValue GraymapImage = 255"
    by (simp add: IsInitialized_def GetWidth_def GetHeight_def GetMaxValue_def GraymapImage_def)
  ultimately show ?thesis by simp
qed

theorem LoadImage_unreadable_unchanged_witness:
  "LoadImage [] ''missing.pgm'' GraymapImage = Some (Inr (False, GraymapImage)) \<and>
   LoadImage [(''a.pgm'', ''XX\<newline>2 2\<newline>255\<newline>ABCD'')] ''a.pgm'' GraymapImage
     = Some (Inr (False, GraymapImage)) \<and>
   LoadImage [(''e.pgm'', '''')] ''e.pgm'' GraymapImage = Some (Inr (False, GraymapImage)) \<and>
   LoadImage [(''c.pgm'', ''P5 \<newline>2 2\<newline>255\<newline>ABCD'')] ''c.pgm'' GraymapImage
     = Some (Inr (False, GraymapImage))"
  using LoadImage_unreadable_unchanged [of "[]" "''missing.pgm''" GraymapImage]
    LoadImage_unreadable_unchanged
      [of "[(''a.pgm'', ''XX\<newline>2 2\<newline>255\<newline>ABCD'')]" "''a.pgm''" GraymapImage]
    LoadImage_unreadable_unchanged [of "[(''e.pgm'', '''')]" "''e.pgm''" GraymapImage]
    LoadImage_unreadable_unchanged
      [of "[(''c.pgm'', ''P5 \<newline>2 2\<newline>255\<newline>ABCD'')]" "''c.pgm''" GraymapImage]
  by simp

subsection \<open>The maximum value is read for every format\<close>

text \<open>
  C1. The condition of lines 111 and 112 holds for every format string, so for every accepted
  file, the bit formats P1 and P4 included, \<^verbatim>\<open>LoadImage\<close> reads a maximum value after the
  size, returns false when it exceeds 255, and only then decodes the pixels, from the stream
  as that read has left it.
\<close>

theorem max_value_always_read:
  assumes "read_format files filename = (infile, formatBuffer)"
      and "formatBuffer \<in> {''P1'', ''P2'', ''P4'', ''P5''}"
      and "read_size (read_comment infile) img = (stream, img1)"
      and "read_max_value stream img1 = (stream1, img2)"
  shows "reads_max_value formatBuffer \<and>
         LoadImage files filename img =
           (if 255 < max_value img2 then Some (Inr (False, img2))
            else map_option (map_sum id (Pair True)) (decode_pixels formatBuffer stream1 img2))"
proof
  show "reads_max_value formatBuffer" by (auto simp: reads_max_value_def)
  show "LoadImage files filename img =
           (if 255 < max_value img2 then Some (Inr (False, img2))
            else map_option (map_sum id (Pair True)) (decode_pixels formatBuffer stream1 img2))"
    using assms by (rule LoadImage_accepted)
qed

theorem max_value_always_read_witness:
  "reads_max_value ''P1'' \<and> reads_max_value ''P4'' \<and>
   LoadImage [(''a.pbm'', ''P1\<newline>1 1\<newline>300\<newline>1'')] ''a.pbm'' GraymapImage
     = Some (Inr (False, \<lparr>data = [0], width = 1, height = 1, max_value = 300\<rparr>)) \<and>
   LoadImage [(''b.pbm'', ''P4\<newline>8 1\<newline>7\<newline>'' @ [CHR 0xB0])] ''b.pbm'' GraymapImage
     = map_option (map_sum id (Pair True))
         (decode_pixels ''P4'' \<lparr>rest = [CHR 0x0A, CHR 0xB0], failbit = False, eofbit = False\<rparr>
            \<lparr>data = [0, 0, 0, 0, 0, 0, 0, 0], width = 8, height = 1, max_value = 7\<rparr>)"
proof -
  let ?f1 = "[(''a.pbm'', ''P1\<newline>1 1\<newline>300\<newline>1'')]"
  let ?in1 = "\<lparr>rest = ''1 1\<newline>300\<newline>1'', failbit = False, eofbit = False\<rparr>"
  let ?s1 = "\<lparr>rest = ''\<newline>300\<newline>1'', failbit = False, eofbit = False\<rparr>"
  let ?t1 = "\<lparr>rest = ''\<newline>1'', failbit = False, eofbit = False\<rparr>"
  let ?i1 = "\<lparr>data = [0], width = 1, height = 1, max_value = 255\<rparr>"
  let ?j1 = "\<lparr>data = [0], width = 1, height = 1, max_value = 300\<rparr>"
  have a1: "read_format ?f1 ''a.pbm'' = (?in1, ''P1'')"
    by (simp add: read_format_def stream_defs)
  have a2: "''P1'' \<in> {''P1'', ''P2'', ''P4'', ''P5''}" by simp
  have a3: "read_size (read_comment ?in1) GraymapImage = (?s1, ?i1)"
    by (simp add: load_defs stream_defs Let_def)
  have a4: "read_max_value ?s1 ?i1 = (?t1, ?j1)"
    by (simp add: load_defs stream_defs Let_def)
  let ?f2 = "[(''b.pbm'', ''P4\<newline>8 1\<newline>7\<newline>'' @ [CHR 0xB0])]"
  let ?in2 = "\<lparr>rest = ''8 1\<newline>7\<newline>'' @ [CHR 0xB0], failbit = False, eofbit = False\<rparr>"
  let ?s2 = "\<lparr>rest = ''\<newline>7\<newline>'' @ [CHR 0xB0], failbit = False, eofbit = False\<rparr>"
  let ?t2 = "\<lparr>rest = [CHR 0x0A, CHR 0xB0], failbit = False, eofbit = False\<rparr>"
  let ?i2 = "\<lparr>data = [0, 0, 0, 0, 0, 0, 0, 0], width = 8, height = 1, max_value = 255\<rparr>"
  let ?j2 = "\<lparr>data = [0, 0, 0, 0, 0, 0, 0, 0], width = 8, height = 1, max_value = 7\<rparr>"
  have b1: "read_format ?f2 ''b.pbm'' = (?in2, ''P4'')"
    by (simp add: read_format_def stream_defs)
  have b2: "''P4'' \<in> {''P1'', ''P2'', ''P4'', ''P5''}" by simp
  have b3: "read_size (read_comment ?in2) GraymapImage = (?s2, ?i2)"
    by (simp add: load_defs stream_defs Let_def replicate_numeral_u8)
  have b4: "read_max_value ?s2 ?i2 = (?t2, ?j2)"
    by (simp add: load_defs stream_defs Let_def)
  from max_value_always_read [OF a1 a2 a3 a4] max_value_always_read [OF b1 b2 b3 b4]
  show ?thesis by simp
qed

text \<open>
  C9. When the maximum value read from an accepted file exceeds 255, \<^verbatim>\<open>LoadImage\<close> returns
  false, and no pixel has been decoded: the buffer is the old one resized to width times
  height. The returned flag is all the caller gets; it does not tell this failure from a
  bad first line.
\<close>

theorem max_value_over_255_fails:
  assumes "read_format files filename = (infile, formatBuffer)"
      and "formatBuffer \<in> {''P1'', ''P2'', ''P4'', ''P5''}"
      and "read_size (read_comment infile) img = (stream, img1)"
      and "read_max_value stream img1 = (stream1, img2)"
      and "255 < max_value img2"
  shows "LoadImage files filename img = Some (Inr (False, img2)) \<and>
         data img2 = resize (data img) (unat (width img2 * height img2))"
  using LoadImage_accepted [OF assms(1-4)] assms(5)
    data_read_size [OF assms(3)] data_read_max_value [OF assms(4)]
  by simp

theorem max_value_over_255_fails_witness:
  "LoadImage [(''a.pgm'', ''P2\<newline>2 2\<newline>300\<newline>0 128 255 64\<newline>'')] ''a.pgm'' GraymapImage
     = Some (Inr (False, \<lparr>data = [0, 0, 0, 0], width = 2, height = 2, max_value = 300\<rparr>))"
proof -
  let ?files = "[(''a.pgm'', ''P2\<newline>2 2\<newline>300\<newline>0 128 255 64\<newline>'')]"
  let ?infile = "\<lparr>rest = ''2 2\<newline>300\<newline>0 128 255 64\<newline>'', failbit = False, eofbit = False\<rparr>"
  let ?stream = "\<lparr>rest = ''\<newline>300\<newline>0 128 255 64\<newline>'', failbit = False, eofbit = False\<rparr>"
  let ?stream1 = "\<lparr>rest = ''\<newline>0 128 255 64\<newline>'', failbit = False, eofbit = False\<rparr>"
  let ?img1 = "\<lparr>data = [0, 0, 0, 0], width = 2, height = 2, max_value = 255\<rparr>"
  let ?img2 = "\<lparr>data = [0, 0, 0, 0], width = 2, height = 2, max_value = 300\<rparr>"
  have h1: "read_format ?files ''a.pgm'' = (?infile, ''P2'')"
    by (simp add: read_format_def stream_defs)
  have h2: "''P2'' \<in> {''P1'', ''P2'', ''P4'', ''P5''}" by simp
  have h3: "read_size (read_comment ?infile) GraymapImage = (?stream, ?img1)"
    by (simp add: load_defs stream_defs Let_def replicate_numeral_u8)
  have h4: "read_max_value ?stream ?img1 = (?stream1, ?img2)"
    by (simp add: load_defs stream_defs Let_def)
  have h5: "255 < max_value ?img2" by simp
  from max_value_over_255_fails [OF h1 h2 h3 h4 h5] show ?thesis by simp
qed

subsection \<open>What a failed load leaves behind\<close>

text \<open>
  C2, as the specification states it, fails: a P2 file whose maximum value is 300 makes
  \<^verbatim>\<open>LoadImage\<close> return false, and the object, default-constructed before the call, is left
  with width 2, height 2, a buffer of four zeros and maximum value 300, so that
  \<^verbatim>\<open>IsInitialized\<close> has become true.
\<close>

theorem failed_load_mutates_counterexample:
  "LoadImage [(''a.pgm'', ''P2\<newline>2 2\<newline>300\<newline>0 128 255 64\<newline>'')] ''a.pgm'' GraymapImage
     = Some (Inr (False, \<lparr>data = [0, 0, 0, 0], width = 2, height = 2, max_value = 300\<rparr>)) \<and>
   \<not> IsInitialized GraymapImage \<and>
   IsInitialized \<lparr>data = [0, 0, 0, 0], width = 2, height = 2, max_value = 300\<rparr>"
  by (simp add: load_defs stream_defs Let_def replicate_numeral_u8 IsInitialized_def)

text \<open>
  C2, amended. \<^verbatim>\<open>LoadImage\<close> returns false in two ways only. Either the first line is not
  one of the four format names, and the object is unchanged. Or the format was accepted and
  the maximum value read exceeds 255; then the object is the one the header reads have
  produced: width, height and maximum value as read, and the buffer resized to
  width times height, with no pixel decoded.
\<close>

theorem failed_load_state:
  assumes "LoadImage files filename img = Some (Inr (False, img'))"
      and "read_format files filename = (infile, formatBuffer)"
  shows "(formatBuffer \<notin> {''P1'', ''P2'', ''P4'', ''P5''} \<and> img' = img) \<or>
         (formatBuffer \<in> {''P1'', ''P2'', ''P4'', ''P5''} \<and> 255 < max_value img' \<and>
          (\<exists>stream img1 stream1.
             read_size (read_comment infile) img = (stream, img1) \<and>
             read_max_value stream img1 = (stream1, img')) \<and>
          data img' = resize (data img) (unat (width img' * height img')))"
proof (cases "formatBuffer \<in> {''P1'', ''P2'', ''P4'', ''P5''}")
  case False
  with assms show ?thesis by (auto simp: LoadImage_def)
next
  case True
  obtain stream img1 where rs: "read_size (read_comment infile) img = (stream, img1)"
    by (cases "read_size (read_comment infile) img")
  obtain stream1 img2 where rm: "read_max_value stream img1 = (stream1, img2)"
    by (cases "read_max_value stream img1")
  have "LoadImage files filename img =
     (if 255 < max_value img2 then Some (Inr (False, img2))
      else map_option (map_sum id (Pair True)) (decode_pixels formatBuffer stream1 img2))"
    using assms(2) True rs rm by (rule LoadImage_accepted)
  with assms(1) have "255 < max_value img2 \<and> img' = img2"
    by (auto simp: map_sum_Pair_True split: if_splits)
  moreover have "data img2 = resize (data img) (unat (width img2 * height img2))"
    using data_read_size [OF rs] data_read_max_value [OF rm] by simp
  ultimately show ?thesis using True rs rm by blast
qed

theorem failed_load_state_witness:
  "(255 :: u16) < max_value \<lparr>data = [0, 0, 0, 0], width = 2, height = 2, max_value = 300\<rparr> \<and>
   data \<lparr>data = [0, 0, 0, 0], width = 2, height = 2, max_value = 300\<rparr>
     = resize (data GraymapImage) (unat (2 * 2 :: u32)) \<and>
   LoadImage [(''a.pgm'', ''XX\<newline>2 2\<newline>300\<newline>'')] ''a.pgm'' GraymapImage
     = Some (Inr (False, GraymapImage))"
proof -
  let ?files = "[(''a.pgm'', ''P2\<newline>2 2\<newline>300\<newline>0 128 255 64\<newline>'')]"
  let ?img' = "\<lparr>data = [0, 0, 0, 0], width = 2, height = 2, max_value = 300\<rparr>"
  have h1: "LoadImage ?files ''a.pgm'' GraymapImage = Some (Inr (False, ?img'))"
    by (simp add: load_defs stream_defs Let_def replicate_numeral_u8)
  have h2: "read_format ?files ''a.pgm'' =
      (\<lparr>rest = ''2 2\<newline>300\<newline>0 128 255 64\<newline>'', failbit = False, eofbit = False\<rparr>, ''P2'')"
    by (simp add: read_format_def stream_defs)
  let ?bad = "[(''a.pgm'', ''XX\<newline>2 2\<newline>300\<newline>'')]"
  have h3: "LoadImage ?bad ''a.pgm'' GraymapImage = Some (Inr (False, GraymapImage))"
    by (simp add: load_defs stream_defs)
  have h4: "read_format ?bad ''a.pgm'' =
      (\<lparr>rest = ''2 2\<newline>300\<newline>'', failbit = False, eofbit = False\<rparr>, ''XX'')"
    by (simp add: read_format_def stream_defs)
  show ?thesis
    using failed_load_state [OF h1 h2] failed_load_state [OF h3 h4] h3 by simp
qed

subsection \<open>P5: one byte per pixel\<close>

text \<open>
  C3, as the specification states it, fails: in the P5 file \<^verbatim>\<open>"P5\n2 1\n255\n A"\<close> the
  raster is the two bytes 32 and 65, but the loop that skips white space before the raster
  takes the 32 with it: pixel (0, 0) is 65 and pixel (1, 0), for which nothing is left, is 0.
\<close>

theorem P5_leading_space_counterexample:
  "LoadImage [(''a.pgm'', ''P5\<newline>2 1\<newline>255\<newline> A'')] ''a.pgm'' GraymapImage
     = Some (Inr (True, \<lparr>data = [65, 0], width = 2, height = 1, max_value = 255\<rparr>)) \<and>
   GetPixel \<lparr>data = [65, 0], width = 2, height = 1, max_value = 255\<rparr> 0 0 = Inr 65 \<and>
   GetPixel \<lparr>data = [65, 0], width = 2, height = 1, max_value = 255\<rparr> 1 0 = Inr 0 \<and>
   map of_char '' A'' = [32, 65 :: u8]"
  by (simp add: load_defs stream_defs for_loop.simps skip_whitespace.simps Let_def
      replicate_numeral_u8 GetPixel_def)

text \<open>
  C3, amended. Take a P5 file made of the line \<^verbatim>\<open>P5\<close>, at most one comment line, the width
  \<open>W\<close>, white space, the height \<open>H\<close>, white space, a maximum value of at most 255, white
  space and a raster of at least \<open>W * H\<close> bytes, with \<open>W * H\<close> representable in 32 bits, and
  a raster that does not begin with a white-space code. Then \<^verbatim>\<open>LoadImage\<close>, on any object,
  returns true, the getters give \<open>W\<close>, \<open>H\<close> and the maximum value, the buffer has exactly
  \<open>W * H\<close> entries, and \<^verbatim>\<open>GetPixel(x, y)\<close> for \<open>x < W\<close> and \<open>y < H\<close> is raster byte
  \<open>y * W + x\<close>, unchanged.
\<close>

theorem P5_file_pixels_verbatim:
  fixes W H :: nat
  assumes content: "map_of files filename =
        Some (''P5'' @ [CHR 0x0A] @ comment @ wd @ sp1 @ ht @ sp2 @ md @ sp3 @ raster)"
      and cmt: "comment = [] \<or>
        (\<exists>line. comment = CHR ''#'' # line @ [CHR 0x0A] \<and> CHR 0x0A \<notin> set line)"
      and wd: "wd \<noteq> []" "\<forall>c\<in>set wd. isdigit c" "dec_value wd = W"
      and sp1: "sp1 \<noteq> []" "\<forall>c\<in>set sp1. isspace c"
      and ht: "ht \<noteq> []" "\<forall>c\<in>set ht. isdigit c" "dec_value ht = H"
      and sp2: "sp2 \<noteq> []" "\<forall>c\<in>set sp2. isspace c"
      and md: "md \<noteq> []" "\<forall>c\<in>set md. isdigit c" "dec_value md \<le> 255"
      and sp3: "sp3 \<noteq> []" "\<forall>c\<in>set sp3. isspace c"
      and size: "W < 2 ^ 32" "H < 2 ^ 32" "W * H < 2 ^ 32"
      and raster: "W * H \<le> length raster" "raster = [] \<or> \<not> isspace (hd raster)"
  shows "\<exists>img'. LoadImage files filename img = Some (Inr (True, img')) \<and>
           GetWidth img' = of_nat W \<and> GetHeight img' = of_nat H \<and>
           GetMaxValue img' = of_nat (dec_value md) \<and>
           length (data img') = W * H \<and>
           (\<forall>x y. x < W \<and> y < H \<longrightarrow>
              GetPixel img' (of_nat x) (of_nat y) = Inr (of_char (raster ! (y * W + x))))"
proof -
  let ?tail = "sp3 @ raster"
  define stream1 where "stream1 = \<lparr>rest = ?tail, failbit = False, eofbit = (?tail = [])\<rparr>"
  let ?img2 = "img\<lparr>data := resize (data img)
                       (unat (of_nat (dec_value wd) * of_nat (dec_value ht) :: u32)),
                  width := of_nat (dec_value wd), height := of_nat (dec_value ht),
                  max_value := of_nat (dec_value md)\<rparr>"
  have t: "?tail = [] \<or> \<not> isdigit (hd ?tail)"
    using sp3 isdigit_not_isspace [of "hd sp3"] by (cases sp3) auto
  have m16: "dec_value md < 2 ^ 16" using md(3) by simp
  from header_of_file [of files filename "''P5''" comment wd sp1 ht sp2 md ?tail img]
    content cmt wd sp1 ht sp2 md(1,2) m16 t size(1,2)
  obtain infile stream img1 where rf: "read_format files filename = (infile, ''P5'')"
    and rs: "read_size (read_comment infile) img = (stream, img1)"
    and rm: "read_max_value stream img1 = (stream1, ?img2)"
    unfolding stream1_def by auto
  have pb: "pixel_bytes stream1 = map of_char raster"
  proof -
    have "dropWhile isspace ?tail = raster"
      using takeWhile_token(2) [OF sp3(2) raster(2)] .
    then show ?thesis using pixel_bytes_tail [of ?tail] by (simp add: stream1_def)
  qed
  have mv: "max_value ?img2 \<le> 255"
    using md(3) by (simp add: word_le_nat_alt unat_of_nat)
  have uw: "unat (of_nat W :: u32) = W" "unat (of_nat H :: u32) = H"
    using size(1,2) by (simp_all add: unat_of_nat_u32)
  have w: "width ?img2 = of_nat W" and h: "height ?img2 = of_nat H"
    using wd(3) ht(3) by simp_all
  have n: "unat (of_nat W :: u32) * unat (of_nat H :: u32) < 2 ^ 32" using size(3) uw by simp
  have enough: "unat (of_nat W :: u32) * unat (of_nat H :: u32) \<le> length (pixel_bytes stream1)"
    using raster(1) uw pb by simp
  from P5_pixels_from_stream [OF rf rs rm mv w h n enough]
  obtain img' where load: "LoadImage files filename img = Some (Inr (True, img'))"
    and hdr: "GetWidth img' = of_nat W" "GetHeight img' = of_nat H"
      "GetMaxValue img' = max_value ?img2"
    and len: "length (data img') = W * H"
    and px: "\<And>x y. x < (of_nat W :: u32) \<Longrightarrow> y < (of_nat H :: u32) \<Longrightarrow>
        GetPixel img' x y = Inr (pixel_bytes stream1 ! (unat y * W + unat x))"
    unfolding uw by blast
  have "GetPixel img' (of_nat x) (of_nat y) = Inr (of_char (raster ! (y * W + x)))"
    if "x < W" "y < H" for x y
  proof -
    have ux: "unat (of_nat x :: u32) = x" "unat (of_nat y :: u32) = y"
      using that size(1,2) by (simp_all add: unat_of_nat_u32)
    have lt: "(of_nat x :: u32) < of_nat W" "(of_nat y :: u32) < of_nat H"
      using that ux uw by (simp_all add: word_less_nat_alt)
    have "y * W + x < W * H" using that by (rule row_major_bound)
    then have "y * W + x < length raster" using raster(1) by simp
    then show ?thesis using px [OF lt] ux by (simp add: pb)
  qed
  with load hdr len show ?thesis by auto
qed

theorem P5_file_pixels_verbatim_witness:
  "\<exists>img'. LoadImage [(''a.pgm'', ''P5\<newline># made by hand\<newline>2 2\<newline>255\<newline>ABCD'')] ''a.pgm''
             GraymapImage = Some (Inr (True, img')) \<and>
          GetWidth img' = 2 \<and> GetHeight img' = 2 \<and> GetMaxValue img' = 255 \<and>
          length (data img') = 4 \<and> GetPixel img' 0 0 = Inr 65 \<and> GetPixel img' 1 0 = Inr 66 \<and>
          GetPixel img' 0 1 = Inr 67 \<and> GetPixel img' 1 1 = Inr 68"
proof -
  let ?files = "[(''a.pgm'', ''P5\<newline># made by hand\<newline>2 2\<newline>255\<newline>ABCD'')]"
  have content: "map_of ?files ''a.pgm'' =
      Some (''P5'' @ [CHR 0x0A] @ ''# made by hand\<newline>'' @ ''2'' @ '' '' @ ''2'' @ ''\<newline>''
            @ ''255'' @ ''\<newline>'' @ ''ABCD'')"
    by simp
  have cmt: "''# made by hand\<newline>'' = [] \<or>
      (\<exists>line. ''# made by hand\<newline>'' = CHR ''#'' # line @ [CHR 0x0A] \<and> CHR 0x0A \<notin> set line)"
    by (intro disjI2 exI [of _ "'' made by hand''"]) simp
  have d2: "''2'' \<noteq> []" "\<forall>c\<in>set ''2''. isdigit c" "dec_value ''2'' = 2"
    by (simp_all add: isdigit_def dec_value_def digit_value_def)
  have sp: "'' '' \<noteq> []" "\<forall>c\<in>set '' ''. isspace c"
    by (simp_all add: isspace_def)
  have nl: "''\<newline>'' \<noteq> []" "\<forall>c\<in>set ''\<newline>''. isspace c"
    by (simp_all add: isspace_def)
  have d255: "''255'' \<noteq> []" "\<forall>c\<in>set ''255''. isdigit c" "dec_value ''255'' \<le> 255"
    "dec_value ''255'' = 255"
    by (simp_all add: isdigit_def dec_value_def digit_value_def)
  have size: "(2 :: nat) < 2 ^ 32" "(2 :: nat) < 2 ^ 32" "(2 :: nat) * 2 < 2 ^ 32" by simp_all
  have raster: "(2 :: nat) * 2 \<le> length ''ABCD''" "''ABCD'' = [] \<or> \<not> isspace (hd ''ABCD'')"
    by (simp_all add: isspace_def)
  from P5_file_pixels_verbatim [OF content cmt d2 sp d2 nl d255(1-3) nl size raster,
      of GraymapImage]
  obtain img' where load: "LoadImage ?files ''a.pgm'' GraymapImage = Some (Inr (True, img'))"
    and hdr: "GetWidth img' = of_nat 2" "GetHeight img' = of_nat 2"
      "GetMaxValue img' = of_nat (dec_value ''255'')"
    and len: "length (data img') = 2 * 2"
    and px: "\<And>x y. x < 2 \<Longrightarrow> y < 2 \<Longrightarrow>
        GetPixel img' (of_nat x) (of_nat y) = Inr (of_char (''ABCD'' ! (y * 2 + x)))"
    by blast
  have "GetPixel img' 0 0 = Inr 65" "GetPixel img' 1 0 = Inr 66"
    "GetPixel img' 0 1 = Inr 67" "GetPixel img' 1 1 = Inr 68"
    using px [of 0 0] px [of 1 0] px [of 0 1] px [of 1 1] by simp_all
  with load hdr len show ?thesis by (simp add: d255(4))
qed

subsection \<open>The ASCII formats are read character by character\<close>

text \<open>
  C4. The specification expects the P2 file \<^verbatim>\<open>"P2\n2 2\n255\n0 128 255 64\n"\<close> to decode to
  the buffer 0, 128, 255, 64. The elements of \<^verbatim>\<open>_data\<close> are \<^verbatim>\<open>unsigned char\<close>, so
  \<^verbatim>\<open>stream >> _data[...]\<close> reads one character, not a number: the buffer becomes the codes
  of the first four characters that are not white space, \<^verbatim>\<open>'0'\<close>, \<^verbatim>\<open>'1'\<close>, \<^verbatim>\<open>'2'\<close>, \<^verbatim>\<open>'8'\<close>.
  Width, height and maximum value are as expected.
\<close>

theorem P2_example_decodes_characters:
  "LoadImage [(''a.pgm'', ''P2\<newline>2 2\<newline>255\<newline>0 128 255 64\<newline>'')] ''a.pgm'' GraymapImage
     = Some (Inr (True, \<lparr>data = [48, 49, 50, 56], width = 2, height = 2, max_value = 255\<rparr>))"
  by (simp add: load_defs stream_defs for_loop.simps Let_def replicate_numeral_u8)

text \<open>
  C5. The specification expects every pixel of a P1 file to decode to 0 or 255, with as many
  255 as the file has tokens \<^verbatim>\<open>1\<close>. On the 2 by 2 bitmap \<^verbatim>\<open>"P1\n2 2\n1 0\n0 1\n"\<close> the first
  token is taken for the maximum value, the next three are read as the characters \<^verbatim>\<open>'0'\<close>,
  \<^verbatim>\<open>'0'\<close>, \<^verbatim>\<open>'1'\<close> and multiplied by 255 modulo 256, and the last read finds nothing: the
  buffer is 208, 208, 207, 0, with no 255 in it. With a token for the maximum value put in
  front of the pixels, \<^verbatim>\<open>"P1\n2 2\n1\n1 0 0 1\n"\<close>, all four pixels are read, as 207, 208,
  208, 207.
\<close>

theorem P1_example_decodes_characters:
  "LoadImage [(''a.pbm'', ''P1\<newline>2 2\<newline>1 0\<newline>0 1\<newline>'')] ''a.pbm'' GraymapImage
     = Some (Inr (True, \<lparr>data = [208, 208, 207, 0], width = 2, height = 2, max_value = 1\<rparr>)) \<and>
   LoadImage [(''b.pbm'', ''P1\<newline>2 2\<newline>1\<newline>1 0 0 1\<newline>'')] ''b.pbm'' GraymapImage
     = Some (Inr (True, \<lparr>data = [207, 208, 208, 207], width = 2, height = 2, max_value = 1\<rparr>))"
  by (simp add: load_defs stream_defs for_loop.simps Let_def replicate_numeral_u8)

subsection \<open>P4: a file without a maximum value\<close>

text \<open>
  C6. The specification expects the byte \<open>0b10110000\<close> at the start of a row of a P4 file
  to decode to 255, 0, 255, 255, 0, 0, 0, 0. A P4 file has no maximum value, but the
  condition of lines 111 and 112 makes \<^verbatim>\<open>LoadImage\<close> read one all the same: in
  \<^verbatim>\<open>"P4\n8 1\n\xB0"\<close> the read meets the pixel byte, fails and stores 0, the stream stays
  failed, no byte is read after that, and the eight pixels are 0. Only with a token put where
  a maximum value would be, \<^verbatim>\<open>"P4\n8 1\n1\n\xB0"\<close>, does the byte decode as expected.
\<close>

theorem P4_example_decodes_zeros:
  "LoadImage [(''b.pbm'', ''P4\<newline>8 1\<newline>'' @ [CHR 0xB0])] ''b.pbm'' GraymapImage
     = Some (Inr (True, \<lparr>data = [0, 0, 0, 0, 0, 0, 0, 0], width = 8, height = 1, max_value = 0\<rparr>)) \<and>
   LoadImage [(''c.pbm'', ''P4\<newline>8 1\<newline>1\<newline>'' @ [CHR 0xB0])] ''c.pbm'' GraymapImage
     = Some (Inr (True, \<lparr>data = [255, 0, 255, 255, 0, 0, 0, 0], width = 8, height = 1,
                        max_value = 1\<rparr>))"
  by (simp add: load_defs stream_defs rows_P4.simps columns_P4.simps skip_whitespace.simps
      unpack_bits.simps Let_def replicate_numeral_u8)

subsection \<open>Pixel data that ends early\<close>




subsection \<open>GetPixel checks the index, not the coordinates\<close>

text \<open>
  C7, as the specification states it, fails: on the 2 by 2 image loaded from a P5 file,
  \<^verbatim>\<open>GetPixel(2, 0)\<close>, whose \<open>x\<close> equals the width, does not fail but returns the pixel at
  index 2, that is pixel (0, 1).
\<close>

theorem GetPixel_column_unchecked_counterexample:
  "LoadImage [(''a.pgm'', ''P5\<newline>2 2\<newline>255\<newline>ABCD'')] ''a.pgm'' GraymapImage
     = Some (Inr (True, \<lparr>data = [65, 66, 67, 68], width = 2, height = 2, max_value = 255\<rparr>)) \<and>
   GetPixel \<lparr>data = [65, 66, 67, 68], width = 2, height = 2, max_value = 255\<rparr> 2 0 = Inr 67"
  by (simp add: load_defs stream_defs for_loop.simps skip_whitespace.simps Let_def
      replicate_numeral_u8 GetPixel_def)

text \<open>
  C7, amended. On an image that \<^verbatim>\<open>LoadImage\<close> has loaded, the buffer has
  \<open>width * height\<close> entries (in 32-bit arithmetic) and \<^verbatim>\<open>GetPixel(x, y)\<close> fails with
  \<^verbatim>\<open>out_of_range\<close> exactly when the index \<open>y * width + x\<close>, computed in 32-bit unsigned
  arithmetic, is not below that size; otherwise it returns the entry at that index. So
  \<^verbatim>\<open>GetPixel(0, height)\<close> fails, and so does every query with \<open>y \<ge> height\<close> whose index
  does not wrap around.
\<close>

theorem GetPixel_checks_linear_index:
  assumes "LoadImage files filename img0 = Some (Inr (True, img))"
  shows "length (data img) = unat (width img * height img) \<and>
         (GetPixel img x y = Inl out_of_range \<longleftrightarrow>
            length (data img) \<le> unat (y * width img + x)) \<and>
         (unat (y * width img + x) < length (data img) \<longrightarrow>
            GetPixel img x y = Inr (data img ! unat (y * width img + x))) \<and>
         GetPixel img 0 (height img) = Inl out_of_range \<and>
         (height img \<le> y \<and> unat y * unat (width img) + unat x < 2 ^ 32 \<longrightarrow>
            GetPixel img x y = Inl out_of_range)"
proof -
  have len: "length (data img) = unat (width img * height img)"
    using assms by (rule LoadImage_True_length)
  have last: "GetPixel img x y = Inl out_of_range"
    if "height img \<le> y" "unat y * unat (width img) + unat x < 2 ^ 32"
  proof -
    have "unat y * unat (width img) < 2 ^ LENGTH(32)" using that(2) by simp
    then have m: "unat (y * width img) = unat y * unat (width img)"
      by (simp only: unat_mult_lem)
    have "unat (y * width img) + unat x < 2 ^ LENGTH(32)" using that(2) m by simp
    then have "unat (y * width img + x) = unat (y * width img) + unat x"
      by (simp only: unat_add_lem)
    then have idx: "unat (y * width img + x) = unat y * unat (width img) + unat x"
      using m by simp
    have "unat (width img * height img) \<le> unat (width img) * unat (height img)"
      by (simp add: unat_word_ariths)
    also have "\<dots> \<le> unat (width img) * unat y"
      using that(1) by (simp add: word_le_nat_alt)
    finally have "length (data img) \<le> unat (y * width img + x)"
      using len idx by (simp add: mult.commute)
    then show ?thesis by (simp add: GetPixel_def)
  qed
  have "GetPixel img 0 (height img) = Inl out_of_range"
    using len by (simp add: GetPixel_def mult.commute)
  with len last show ?thesis by (auto simp: GetPixel_def Let_def)
qed

theorem GetPixel_checks_linear_index_witness:
  "length (data \<lparr>data = [65, 66, 67, 68], width = 2, height = 2, max_value = 255\<rparr>)
     = unat (2 * 2 :: u32) \<and>
   GetPixel \<lparr>data = [65, 66, 67, 68], width = 2, height = 2, max_value = 255\<rparr> 0 2
     = Inl out_of_range \<and>
   GetPixel \<lparr>data = [65, 66, 67, 68], width = 2, height = 2, max_value = 255\<rparr> 1 3
     = Inl out_of_range \<and>
   GetPixel \<lparr>data = [65, 66, 67, 68], width = 2, height = 2, max_value = 255\<rparr> 1 1
     = Inr 68"
proof -
  let ?img = "\<lparr>data = [65, 66, 67, 68], width = 2, height = 2, max_value = 255\<rparr>"
  have h: "LoadImage [(''a.pgm'', ''P5\<newline>2 2\<newline>255\<newline>ABCD'')] ''a.pgm'' GraymapImage
     = Some (Inr (True, ?img))"
    by (simp add: load_defs stream_defs for_loop.simps skip_whitespace.simps Let_def
        replicate_numeral_u8)
  from GetPixel_checks_linear_index [OF h, of 1 3] GetPixel_checks_linear_index [OF h, of 1 1]
  show ?thesis by simp
qed

subsection \<open>Sizes outside these bounds\<close>

text \<open>
  Two facts about sizes that the properties above leave out. A P4 width above \<open>2^32 - 8\<close>
  makes the column counter wrap around, and the call does not return. A size whose product
  does not fit 32 bits makes the buffer too small, and the first unchecked write falls
  outside it.
\<close>

lemma columns_P4_wraps:
  assumes "2 ^ 32 < unat w + 8" and "8 dvd unat i"
  shows "columns_P4 w j i sd = None"
proof (rule ccontr)
  assume "columns_P4 w j i sd \<noteq> None"
  then obtain y where y: "columns_P4 w j i sd = Some y" by auto
  have "\<not> (2 ^ 32 < unat w + 8 \<and> 8 dvd unat i)"
  proof (rule columns_P4.raw_induct
      [where P = "\<lambda>w j i sd y. \<not> (2 ^ 32 < unat w + 8 \<and> 8 dvd unat i)", OF _ y])
    fix f and w j i :: u32 and sd sd' :: "istream \<times> u8 list"
    assume IH: "\<And>w j i sd y. f w j i sd = Some y \<Longrightarrow> \<not> (2 ^ 32 < unat w + 8 \<and> 8 dvd unat i)"
      and eq: "(if i < w then f w j (i + 8) (read_P4 w j i sd) else Some sd) = Some sd'"
    show "\<not> (2 ^ 32 < unat w + 8 \<and> 8 dvd unat i)"
    proof
      assume a: "2 ^ 32 < unat w + 8 \<and> 8 dvd unat i"
      show False
      proof (cases "i < w")
        case True
        with eq have "f w j (i + 8) (read_P4 w j i sd) = Some sd'" by simp
        from IH [OF this] a have "\<not> 8 dvd unat (i + 8)" by simp
        moreover have "unat (i + 8) = (unat i + 8) mod 4294967296"
          by (simp add: unat_word_ariths)
        moreover have "(8 :: nat) dvd (unat i + 8) mod 4294967296"
          using a by (simp add: dvd_mod_iff)
        ultimately show False by simp
      next
        case False
        then have "unat w \<le> unat i" by (simp add: word_less_nat_alt)
        moreover have "unat i < 2 ^ LENGTH(32)" by (rule unsigned_less)
        then have "unat i < 4294967296" by simp
        moreover have "4294967296 < unat w + 8" using a by simp
        moreover obtain q where "unat i = 8 * q" using a by (auto simp: dvd_def)
        ultimately show False by arith
      qed
    qed
  qed
  with assms show False by simp
qed

lemma LoadImage_wide_P4_does_not_return:
  "LoadImage [(''w.pbm'', ''P4\<newline>4294967295 1\<newline>1\<newline>'')] ''w.pbm'' GraymapImage = None"
proof -
  have "columns_P4 4294967295 0 0 sd = None" for sd
    by (rule columns_P4_wraps) simp_all
  then show ?thesis
    by (simp add: load_defs stream_defs Let_def rows_P4.simps)
qed

lemma LoadImage_overflowing_size_writes_outside:
  "LoadImage [(''o.pgm'', ''P5\<newline>65536 65536\<newline>255\<newline>AB'')] ''o.pgm'' GraymapImage
     = Some (Inl undefined_behaviour)"
  by (simp add: load_defs stream_defs Let_def for_loop.simps skip_whitespace.simps)

end
